theory Spec2Isabelle
  imports
    Complex_Main
    "HOL-Library.Multiset"
    "HOL-Library.Product_Lexorder"
    "HOL-Library.Option_ord"
    "HOL-Library.Log_Nat"
begin

section \<open>The review analyzer of \<^verbatim>\<open>app.py\<close>\<close>

text \<open>
  The development embeds the analysis pipeline of \<^verbatim>\<open>app.py\<close>: the helpers
  \<^verbatim>\<open>clean_text\<close> and \<^verbatim>\<open>generate_smart_summary\<close>, the memoised function
  \<^verbatim>\<open>cached_inference\<close> and the endpoint \<^verbatim>\<open>analyze_product\<close>.

  Conventions of the embedding.
  \<^item> A Python \<^verbatim>\<open>str\<close> is a \<open>string\<close>; a Python \<^verbatim>\<open>int\<close> is an \<open>int\<close>, or a \<open>nat\<close>
    where the code only ever counts.
  \<^item> A Python \<^verbatim>\<open>float\<close> is the rational number it denotes. The two float operations
    of the pipeline (a true division of two ints, a product with 100) round their exact
    result to the nearest number with a 53-bit significand, ties to even
    (\<open>fl53\<close> below). Overflow, subnormals, infinities and NaN are outside the model.
  \<^item> A Python \<^verbatim>\<open>dict\<close> is an association list in insertion order with distinct keys.
  \<^item> A raised exception is the \<open>Inl\<close> branch of a sum.
  \<^item> The data frame \<^verbatim>\<open>df\<close> is the list of its rows in index order, and the zero-shot
    classifier is a parameter: a function from the cleaned texts and the candidate
    labels to either an exception or a list of label/score records.
\<close>

subsection \<open>Data model\<close>

datatype error =
    ValueError
  | IndexError
  | KeyError
  | ZeroDivisionError
  | ClassifierError
  | HTTPException nat

text \<open>One row of \<^verbatim>\<open>data/gold_reviews.parquet\<close>, with the columns the pipeline reads.\<close>

record review_row =
  parent_asin :: string
  review_text :: string
  rating :: int
  helpful_vote :: int
  timestamp :: int
  product_title :: string
  product_image :: "string option"
  average_rating :: rat
  rating_number :: int

text \<open>The class \<^verbatim>\<open>ReviewDetail\<close>.\<close>

record ReviewDetail =
  rd_text :: string
  rd_rating :: int
  rd_topic :: string
  rd_topic_score :: rat

text \<open>The dictionary returned by \<^verbatim>\<open>cached_inference\<close> (the class \<^verbatim>\<open>ReviewAnalysis\<close>).\<close>

record ReviewAnalysis =
  total_reviews_local :: nat
  analyzed_count :: nat
  ra_product_title :: string
  ra_product_image :: "string option"
  ra_average_rating :: rat
  ra_rating_number :: int
  top_topics :: "(string \<times> rat) list"
  sentiment_breakdown :: "(string \<times> nat) list"
  reviews :: "ReviewDetail list"
  ai_summary :: string

text \<open>One element of the list the classifier returns: \<^verbatim>\<open>res['labels']\<close>, \<^verbatim>\<open>res['scores']\<close>.\<close>

record clf_result =
  labels :: "string list"
  scores :: "rat list"

type_synonym classifier = "string list \<Rightarrow> string list \<Rightarrow> error + clf_result list"

definition MAX_REVIEWS_TO_ANALYZE :: nat where
  "MAX_REVIEWS_TO_ANALYZE = 50"

definition LABELS :: "string list" where
  "LABELS = [''Quality & Effectiveness'', ''Scent & Texture'', ''Price & Value'',
             ''Packaging & Shipping'', ''Safety & Authenticity'', ''Service'']"

subsection \<open>\<^verbatim>\<open>clean_text\<close>\<close>

text \<open>
  The class \<^verbatim>\<open>\s\<close> of \<^verbatim>\<open>re\<close> on a \<^verbatim>\<open>str\<close>, and the characters \<^verbatim>\<open>str.strip\<close> removes,
  restricted to the code points below 256.
\<close>

definition is_space :: "char \<Rightarrow> bool" where
  "is_space c = (of_char c \<in> {9, 10, 11, 12, 13, 28, 29, 30, 31, 32, 133, 160 :: nat})"

text \<open>
  A match of \<^verbatim>\<open><br\s*/?>\<close> at the head of the string: the rest of the string behind the
  match. The greedy \<^verbatim>\<open>\s*\<close> never has to give a character back, since what must follow it
  is not white space.
\<close>

definition match_br :: "string \<Rightarrow> string option" where
  "match_br s =
     (if take 3 s = ''<br'' then
        (let r = dropWhile is_space (drop 3 s);
             r' = (case r of [] \<Rightarrow> r | c # t \<Rightarrow> if c = CHR ''/'' then t else r)
         in case r' of [] \<Rightarrow> None | c # t \<Rightarrow> if c = CHR ''>'' then Some t else None)
      else None)"

text \<open>\<^verbatim>\<open>re.sub(r'<br\s*/?>', ' ', text)\<close>: leftmost matches, left to right.\<close>

function sub_br :: "string \<Rightarrow> string" where
  "sub_br [] = []"
| "sub_br (c # cs) =
     (case match_br (c # cs) of
        Some r \<Rightarrow> CHR '' '' # sub_br r
      | None \<Rightarrow> c # sub_br cs)"
  by pat_completeness auto
termination
proof (relation "measure length")
  show "wf (measure length)" by simp
next
  fix c :: char and cs r :: string
  assume m: "match_br (c # cs) = Some r"
  define s where "s = c # cs"
  define d where "d = dropWhile is_space (drop 3 s)"
  have dl: "length d \<le> length s - 3"
    unfolding d_def by (metis length_dropWhile_le length_drop)
  have t3: "take 3 s = ''<br''"
    using m unfolding s_def by (simp add: match_br_def split: if_splits)
  have s3: "3 \<le> length s"
  proof (rule ccontr)
    assume "\<not> 3 \<le> length s"
    then have "length (take 3 s) < 3" by simp
    with t3 show False by simp
  qed
  have "length r < length d"
    using m unfolding match_br_def s_def [symmetric] d_def [symmetric]
    by (auto simp: Let_def split: if_splits list.splits)
  with dl s3 show "(r, c # cs) \<in> measure length"
    by (simp add: s_def)
next
  fix c :: char and cs :: string
  show "(cs, c # cs) \<in> measure length" by simp
qed

text \<open>\<^verbatim>\<open>re.sub(r'\s+', ' ', text)\<close>: a flag remembers that the run has been replaced.\<close>

fun sub_ws :: "bool \<Rightarrow> string \<Rightarrow> string" where
  "sub_ws in_run [] = []"
| "sub_ws in_run (c # cs) =
     (if is_space c then (if in_run then sub_ws True cs else CHR '' '' # sub_ws True cs)
      else c # sub_ws False cs)"

definition strip :: "string \<Rightarrow> string" where
  "strip s = rev (dropWhile is_space (rev (dropWhile is_space s)))"

definition clean_text :: "string \<Rightarrow> string" where
  "clean_text t = strip (sub_ws False (sub_br t))"

subsection \<open>Selection of the reviews to analyze\<close>

text \<open>
  \<^verbatim>\<open>df[df['parent_asin'] == asin]\<close>: the rows of the product, in the order of the frame.
\<close>

definition product_reviews :: "review_row list \<Rightarrow> string \<Rightarrow> review_row list" where
  "product_reviews df asin = filter (\<lambda>r. parent_asin r = asin) df"

text \<open>
  \<^verbatim>\<open>sort_values(by=['helpful_vote', 'timestamp'], ascending=[False, False])\<close>. With more
  than one key pandas sorts lexically: one stable pass per key, the last key first, each
  pass descending. A descending stable pass is a stable pass on the negated key.
\<close>

definition sort_values :: "review_row list \<Rightarrow> review_row list" where
  "sort_values rows =
     sort_key (\<lambda>r. - helpful_vote r) (sort_key (\<lambda>r. - timestamp r) rows)"

definition target_reviews :: "review_row list \<Rightarrow> review_row list" where
  "target_reviews rows = take MAX_REVIEWS_TO_ANALYZE (sort_values rows)"

subsection \<open>Floats\<close>

text \<open>
  Rounding a rational to the nearest integer, ties to even: what \<^verbatim>\<open>format(x, '.0f')\<close>
  prints of a float and what the significand of a float operation is rounded with.
\<close>

definition round_half_even :: "rat \<Rightarrow> int" where
  "round_half_even x =
     (let f = \<lfloor>x\<rfloor>; d = x - of_int f
      in if d < 1 / 2 then f else if 1 / 2 < d then f + 1 else if even f then f else f + 1)"

text \<open>The binary exponent of a positive rational: \<open>2 powi ilog2 x \<le> x < 2 powi (ilog2 x + 1)\<close>.\<close>

definition ilog2 :: "rat \<Rightarrow> int" where
  "ilog2 x =
     (let e0 = bitlen (fst (quotient_of x)) - bitlen (snd (quotient_of x))
      in if 2 powi e0 \<le> x then e0 else e0 - 1)"

text \<open>
  The result of a float operation whose exact result is \<open>x \<ge> 0\<close>: the nearest number
  \<open>m * 2 powi e\<close> with \<open>m\<close> of at most 53 bits.
\<close>

definition fl53 :: "rat \<Rightarrow> rat" where
  "fl53 x =
     (if x \<le> 0 then 0
      else let e = ilog2 x - 52 in of_int (round_half_even (x / 2 powi e)) * 2 powi e)"

text \<open>\<^verbatim>\<open>a / b\<close> on two non-negative ints.\<close>

definition truediv :: "nat \<Rightarrow> nat \<Rightarrow> error + rat" where
  "truediv a b = (if b = 0 then Inl ZeroDivisionError else Inr (fl53 (of_nat a / of_nat b)))"

subsection \<open>Built-ins\<close>

text \<open>The decimal digits of a non-negative int, as an f-string prints it.\<close>

fun digits :: "nat \<Rightarrow> string" where
  "digits n =
     (if n < 10 then [''0123456789'' ! n]
      else digits (n div 10) @ [''0123456789'' ! (n mod 10)])"

text \<open>\<^verbatim>\<open>f"{x:.0f}"\<close> for a float \<open>x \<ge> 0\<close>.\<close>

definition format_0f :: "rat \<Rightarrow> string" where
  "format_0f x = digits (nat (round_half_even x))"

text \<open>
  \<^verbatim>\<open>max(iterable, key=...)\<close>: the first item is the candidate, and a later item replaces
  it only when its key is strictly greater. An empty iterable raises.
\<close>

fun max_from :: "('a \<Rightarrow> 'k::linorder) \<Rightarrow> 'a \<Rightarrow> 'a list \<Rightarrow> 'a" where
  "max_from key best [] = best"
| "max_from key best (x # xs) = max_from key (if key best < key x then x else best) xs"

definition py_max :: "('a \<Rightarrow> 'k::linorder) \<Rightarrow> 'a list \<Rightarrow> error + 'a" where
  "py_max key xs = (case xs of [] \<Rightarrow> Inl ValueError | x # rest \<Rightarrow> Inr (max_from key x rest))"

text \<open>\<^verbatim>\<open>d[k] = v\<close>: an existing key keeps its place, a new key goes to the end.\<close>

fun dict_set :: "'k \<Rightarrow> 'v \<Rightarrow> ('k \<times> 'v) list \<Rightarrow> ('k \<times> 'v) list" where
  "dict_set k v [] = [(k, v)]"
| "dict_set k v (p # ps) = (if fst p = k then (k, v) # ps else p # dict_set k v ps)"

text \<open>\<^verbatim>\<open>d.get(k, default)\<close> and \<^verbatim>\<open>d[k]\<close>.\<close>

definition dict_get :: "('k \<times> 'v) list \<Rightarrow> 'k \<Rightarrow> 'v \<Rightarrow> 'v" where
  "dict_get d k dflt = (case map_of d k of None \<Rightarrow> dflt | Some v \<Rightarrow> v)"

definition dict_item :: "('k \<times> 'v) list \<Rightarrow> 'k \<Rightarrow> error + 'v" where
  "dict_item d k = (case map_of d k of None \<Rightarrow> Inl KeyError | Some v \<Rightarrow> Inr v)"

text \<open>\<^verbatim>\<open>d[k] += 1\<close>.\<close>

definition dict_incr :: "'k \<Rightarrow> ('k \<times> nat) list \<Rightarrow> error + ('k \<times> nat) list" where
  "dict_incr k d = (case dict_item d k of Inl e \<Rightarrow> Inl e | Inr v \<Rightarrow> Inr (dict_set k (v + 1) d))"

subsection \<open>\<^verbatim>\<open>generate_smart_summary\<close>\<close>

definition context_sentence :: "string \<Rightarrow> string" where
  "context_sentence top_sentiment =
     (if top_sentiment = ''Negative''
        then ''This suggests users are facing critical issues in this specific area.''
      else if top_sentiment = ''Positive''
        then ''This indicates high user satisfaction regarding this feature.''
      else ''Opinions on this product appear to be mixed.'')"

definition summary_text :: "nat \<Rightarrow> string \<Rightarrow> string \<Rightarrow> rat \<Rightarrow> string" where
  "summary_text total_analyzed top_sentiment top_topic top_topic_pct =
     ''Based on an analysis of '' @ digits total_analyzed
       @ '' reviews, the customer sentiment is predominantly **'' @ top_sentiment @ ''**. ''
     @ ''The primary driver of conversation is **'' @ top_topic
       @ ''**, which appears in **'' @ format_0f top_topic_pct @ ''%** of the feedback. ''
     @ context_sentence top_sentiment"

definition generate_smart_summary ::
  "(string \<times> nat) list \<Rightarrow> (string \<times> nat) list \<Rightarrow> nat \<Rightarrow> error + string" where
  "generate_smart_summary topic_counts sentiment_counts total_analyzed =
     (case py_max (map_of topic_counts) (map fst topic_counts) of
        Inl e \<Rightarrow> Inl e
      | Inr top_topic \<Rightarrow>
     (case dict_item topic_counts top_topic of
        Inl e \<Rightarrow> Inl e
      | Inr c \<Rightarrow>
     (case truediv c total_analyzed of
        Inl e \<Rightarrow> Inl e
      | Inr q \<Rightarrow>
     (let top_topic_pct = fl53 (q * 100) in
      case py_max (map_of sentiment_counts) (map fst sentiment_counts) of
        Inl e \<Rightarrow> Inl e
      | Inr top_sentiment \<Rightarrow>
          Inr (summary_text total_analyzed top_sentiment top_topic top_topic_pct)))))"

subsection \<open>The body of \<^verbatim>\<open>cached_inference\<close>\<close>

text \<open>The three local accumulators of the loop.\<close>

record agg =
  processed_reviews :: "ReviewDetail list"
  topic_counts :: "(string \<times> nat) list"
  sentiment_counts :: "(string \<times> nat) list"

definition init_agg :: agg where
  "init_agg =
     \<lparr>processed_reviews = [], topic_counts = [],
      sentiment_counts = [(''Positive'', 0), (''Negative'', 0), (''Neutral'', 0)]\<rparr>"

text \<open>The \<^verbatim>\<open>if\<close>/\<^verbatim>\<open>elif\<close>/\<^verbatim>\<open>else\<close> on \<^verbatim>\<open>row.rating\<close>: the key that is incremented.\<close>

definition sentiment_bucket :: "int \<Rightarrow> string" where
  "sentiment_bucket r =
     (if r \<ge> 4 then ''Positive'' else if r \<le> 2 then ''Negative'' else ''Neutral'')"

text \<open>\<^verbatim>\<open>max(zip(res['labels'], res['scores']), key=lambda x: x[1])\<close>.\<close>

definition best_of :: "clf_result \<Rightarrow> error + (string \<times> rat)" where
  "best_of res = py_max snd (zip (labels res) (scores res))"

text \<open>\<^verbatim>\<open>xs[i]\<close> for \<open>i \<ge> 0\<close>.\<close>

definition list_item :: "'a list \<Rightarrow> nat \<Rightarrow> error + 'a" where
  "list_item xs i = (if i < length xs then Inr (xs ! i) else Inl IndexError)"

text \<open>One iteration of \<^verbatim>\<open>for i, row in enumerate(target_reviews.itertuples())\<close>.\<close>

definition loop_body ::
  "clf_result list \<Rightarrow> string list \<Rightarrow> nat \<Rightarrow> review_row \<Rightarrow> agg \<Rightarrow> error + agg" where
  "loop_body results raw_texts i row a =
     (case list_item results i of
        Inl e \<Rightarrow> Inl e
      | Inr res \<Rightarrow>
     (case best_of res of
        Inl e \<Rightarrow> Inl e
      | Inr (best_topic, best_score) \<Rightarrow>
     (case list_item raw_texts i of
        Inl e \<Rightarrow> Inl e
      | Inr t \<Rightarrow>
     (let pr = processed_reviews a @
             [\<lparr>rd_text = t, rd_rating = rating row,
               rd_topic = best_topic, rd_topic_score = best_score\<rparr>];
          tc = dict_set best_topic (dict_get (topic_counts a) best_topic 0 + 1) (topic_counts a)
      in case dict_incr (sentiment_bucket (rating row)) (sentiment_counts a) of
           Inl e \<Rightarrow> Inl e
         | Inr sc \<Rightarrow>
             Inr \<lparr>processed_reviews = pr, topic_counts = tc, sentiment_counts = sc\<rparr>))))"

fun loop ::
  "clf_result list \<Rightarrow> string list \<Rightarrow> nat \<Rightarrow> review_row list \<Rightarrow> agg \<Rightarrow> error + agg" where
  "loop results raw_texts i [] a = Inr a"
| "loop results raw_texts i (row # rows) a =
     (case loop_body results raw_texts i row a of
        Inl e \<Rightarrow> Inl e
      | Inr a' \<Rightarrow> loop results raw_texts (Suc i) rows a')"

text \<open>\<^verbatim>\<open>{k: v / total for k, v in topic_counts.items()}\<close>.\<close>

fun topic_percentages :: "(string \<times> nat) list \<Rightarrow> nat \<Rightarrow> error + (string \<times> rat) list" where
  "topic_percentages [] tot = Inr []"
| "topic_percentages ((k, v) # kvs) tot =
     (case truediv v tot of
        Inl e \<Rightarrow> Inl e
      | Inr q \<Rightarrow>
     (case topic_percentages kvs tot of
        Inl e \<Rightarrow> Inl e
      | Inr rest \<Rightarrow> Inr ((k, q) # rest)))"

text \<open>
  Everything behind the classifier call: the loop, the summary, the percentages and the
  returned dictionary. \<open>rows\<close> is \<^verbatim>\<open>product_reviews\<close>, not empty, and \<open>meta\<close> its first row.
\<close>

definition assemble ::
  "review_row list \<Rightarrow> review_row \<Rightarrow> review_row list \<Rightarrow> string list \<Rightarrow> clf_result list
     \<Rightarrow> error + ReviewAnalysis" where
  "assemble rows meta target raw_texts results =
     (case loop results raw_texts 0 target init_agg of
        Inl e \<Rightarrow> Inl e
      | Inr a \<Rightarrow>
     (let total = length (processed_reviews a) in
      case generate_smart_summary (topic_counts a) (sentiment_counts a) total of
        Inl e \<Rightarrow> Inl e
      | Inr ai_generated_text \<Rightarrow>
     (case topic_percentages (topic_counts a) total of
        Inl e \<Rightarrow> Inl e
      | Inr percentages \<Rightarrow>
          Inr \<lparr>total_reviews_local = length rows,
               analyzed_count = total,
               ra_product_title = product_title meta,
               ra_product_image = product_image meta,
               ra_average_rating = (if average_rating meta \<noteq> 0 then average_rating meta else 0),
               ra_rating_number = (if rating_number meta \<noteq> 0 then rating_number meta else 0),
               top_topics = percentages,
               sentiment_breakdown = sentiment_counts a,
               reviews = processed_reviews a,
               ai_summary = ai_generated_text\<rparr>)))"

subsection \<open>The server: the cache and the endpoint\<close>

text \<open>
  The state of the process: the entries of the \<^verbatim>\<open>lru_cache\<close>, most recently used first, and
  the number of calls the classifier has received. The classifier may answer each call
  differently (it may fail now and work later), so it is indexed by the number of the
  call.
\<close>

record server =
  cache :: "(string \<times> ReviewAnalysis option) list"
  calls :: nat

definition maxsize :: nat where
  "maxsize = 50"

text \<open>The function \<^verbatim>\<open>cached_inference\<close> as written, without its decorator.\<close>

definition inference ::
  "review_row list \<Rightarrow> (nat \<Rightarrow> classifier) \<Rightarrow> string \<Rightarrow> server
     \<Rightarrow> (error + ReviewAnalysis option) \<times> server" where
  "inference df clf asin s =
     (case product_reviews df asin of
        [] \<Rightarrow> (Inr None, s)
      | meta # others \<Rightarrow>
     (let rows = meta # others;
          target = target_reviews rows;
          raw_texts = map (\<lambda>r. clean_text (review_text r)) target;
          s' = s\<lparr>calls := calls s + 1\<rparr>
      in case clf (calls s) raw_texts LABELS of
           Inl e \<Rightarrow> (Inl e, s')
         | Inr results \<Rightarrow>
        (case assemble rows meta target raw_texts results of
           Inl e \<Rightarrow> (Inl e, s')
         | Inr r \<Rightarrow> (Inr (Some r), s'))))"

text \<open>
  \<^verbatim>\<open>@lru_cache(maxsize=50)\<close>: a hit returns the stored value and makes the entry the most
  recent one; a miss runs the function and stores whatever it returns, dropping the least
  recently used entry of a full cache; an exception leaves the cache as it was.
\<close>

definition cached_inference ::
  "review_row list \<Rightarrow> (nat \<Rightarrow> classifier) \<Rightarrow> string \<Rightarrow> server
     \<Rightarrow> (error + ReviewAnalysis option) \<times> server" where
  "cached_inference df clf asin s =
     (case map_of (cache s) asin of
        Some r \<Rightarrow> (Inr r, s\<lparr>cache := (asin, r) # filter (\<lambda>p. fst p \<noteq> asin) (cache s)\<rparr>)
      | None \<Rightarrow>
     (case inference df clf asin s of
        (Inl e, s') \<Rightarrow> (Inl e, s')
      | (Inr r, s') \<Rightarrow> (Inr r, s'\<lparr>cache := take maxsize ((asin, r) # cache s')\<rparr>)))"

text \<open>The endpoint \<^verbatim>\<open>/analyze/{asin}\<close>.\<close>

definition analyze_product ::
  "review_row list \<Rightarrow> (nat \<Rightarrow> classifier) \<Rightarrow> string \<Rightarrow> server
     \<Rightarrow> (error + ReviewAnalysis) \<times> server" where
  "analyze_product df clf asin s =
     (case cached_inference df clf asin s of
        (Inl e, s') \<Rightarrow> (Inl e, s')
      | (Inr None, s') \<Rightarrow> (Inl (HTTPException 404), s')
      | (Inr (Some result), s') \<Rightarrow> (Inr result, s'))"

definition empty_server :: server where
  "empty_server = \<lparr>cache = [], calls = 0\<rparr>"

subsection \<open>Reference definitions and sample inputs\<close>

text \<open>
  The tie-break as the specification words it: among the labels of maximal score, the one
  that comes first in the fixed ordering of \<open>LABELS\<close>.
\<close>

definition first_label_with_max_score :: "clf_result \<Rightarrow> string option" where
  "first_label_with_max_score res =
     (let pairs = zip (labels res) (scores res)
      in List.find (\<lambda>l. \<exists>p \<in> set pairs. fst p = l \<and> (\<forall>q \<in> set pairs. snd q \<le> snd p)) LABELS)"

text \<open>A classifier answer in which the last and the first label of \<open>LABELS\<close> tie.\<close>

definition tie_result :: clf_result where
  "tie_result =
     \<lparr>labels = [''Service'', ''Quality & Effectiveness'', ''Scent & Texture'',
                ''Price & Value'', ''Packaging & Shipping'', ''Safety & Authenticity''],
      scores = [9 / 10, 9 / 10, 3 / 10, 2 / 10, 1 / 10, 1 / 10]\<rparr>"

text \<open>
  A store of three rows, two of them reviews of the product \<open>B00YQ6X8EO\<close>, and three
  classifiers: one that always answers with the same two results, one that always fails,
  and one that fails on its first call only.
\<close>

definition row1 :: review_row where
  "row1 =
     \<lparr>parent_asin = ''B00YQ6X8EO'', review_text = ''Broke on arrival,<br />unsafe'',
      rating = 1, helpful_vote = 2, timestamp = 1600000000,
      product_title = ''Hand Cream'', product_image = None,
      average_rating = 9 / 2, rating_number = 120\<rparr>"

definition row2 :: review_row where
  "row2 =
     \<lparr>parent_asin = ''B00YQ6X8EO'', review_text = ''Great  smell, arrived fast '',
      rating = 5, helpful_vote = 10, timestamp = 1500000000,
      product_title = ''Hand Cream'', product_image = None,
      average_rating = 9 / 2, rating_number = 120\<rparr>"

definition row3 :: review_row where
  "row3 =
     \<lparr>parent_asin = ''B01ABCDEFG'', review_text = ''Fine.'',
      rating = 3, helpful_vote = 0, timestamp = 1550000000,
      product_title = ''Soap'', product_image = Some ''https://example.org/soap.jpg'',
      average_rating = 4, rating_number = 8\<rparr>"

definition sample_df :: "review_row list" where
  "sample_df = [row1, row3, row2]"

definition stub_results :: "clf_result list" where
  "stub_results =
     [\<lparr>labels = [''Scent & Texture'', ''Service''], scores = [9 / 10, 1 / 10]\<rparr>,
      \<lparr>labels = [''Safety & Authenticity'', ''Service''], scores = [8 / 10, 1 / 10]\<rparr>]"

definition clf_stub :: "nat \<Rightarrow> classifier" where
  "clf_stub k texts candidate_labels = Inr stub_results"

definition clf_down :: "nat \<Rightarrow> classifier" where
  "clf_down k texts candidate_labels = Inl ClassifierError"

definition clf_flaky :: "nat \<Rightarrow> classifier" where
  "clf_flaky k texts candidate_labels = (if k = 0 then Inl ClassifierError else Inr stub_results)"

text \<open>The analysis of \<open>B00YQ6X8EO\<close> over \<open>sample_df\<close> with the answers of \<open>clf_stub\<close>.\<close>

definition sample_result :: ReviewAnalysis where
  "sample_result =
     \<lparr>total_reviews_local = 2, analyzed_count = 2,
      ra_product_title = ''Hand Cream'', ra_product_image = None,
      ra_average_rating = 9 / 2, ra_rating_number = 120,
      top_topics = [(''Scent & Texture'', 1 / 2), (''Safety & Authenticity'', 1 / 2)],
      sentiment_breakdown = [(''Positive'', 1), (''Negative'', 1), (''Neutral'', 0)],
      reviews =
        [\<lparr>rd_text = ''Great smell, arrived fast'', rd_rating = 5,
          rd_topic = ''Scent & Texture'', rd_topic_score = 9 / 10\<rparr>,
         \<lparr>rd_text = ''Broke on arrival, unsafe'', rd_rating = 1,
          rd_topic = ''Safety & Authenticity'', rd_topic_score = 8 / 10\<rparr>],
      ai_summary =
        ''Based on an analysis of 2 reviews, the customer sentiment is predominantly **Positive**. The primary driver of conversation is **Scent & Texture**, which appears in **50%** of the feedback. This indicates high user satisfaction regarding this feature.''\<rparr>"

text \<open>
  The percentage as the specification words it,
  \<^verbatim>\<open>round(100 * topic_counts[top_topic] / analyzed_count)\<close>: the exact quotient, rounded to
  the nearest integer, ties to even.
\<close>

definition spec_percentage :: "nat \<Rightarrow> nat \<Rightarrow> int" where
  "spec_percentage c n = round_half_even (100 * of_nat c / of_nat n)"

text \<open>Forty analyzed reviews, all of rating 4 or 5, of which 23 have the topic \<open>Service\<close>.\<close>

definition topics_23_of_40 :: "(string \<times> nat) list" where
  "topics_23_of_40 = [(''Service'', 23), (''Price & Value'', 17)]"

definition sentiments_40 :: "(string \<times> nat) list" where
  "sentiments_40 = [(''Positive'', 40), (''Negative'', 0), (''Neutral'', 0)]"

section \<open>Properties\<close>

subsection \<open>The built-in \<^verbatim>\<open>max\<close>\<close>

lemma max_from_split:
  "\<exists>pre post. b # xs = pre @ max_from key b xs # post
     \<and> (\<forall>x \<in> set pre. key x < key (max_from key b xs))
     \<and> (\<forall>x \<in> set post. key x \<le> key (max_from key b xs))"
proof (induction xs arbitrary: b)
  case Nil
  show ?case
    unfolding max_from.simps by (intro exI [of _ "[]"]) simp
next
  case (Cons x xs)
  show ?case
  proof (cases "key b < key x")
    case True
    define m where "m = max_from key x xs"
    from Cons.IH [of x] obtain pre post where
      sp: "x # xs = pre @ m # post"
      and lt: "\<forall>y \<in> set pre. key y < key m"
      and le: "\<forall>y \<in> set post. key y \<le> key m"
      unfolding m_def by blast
    have "key x \<le> key m"
    proof (cases pre)
      case Nil
      with sp have "x = m" by simp
      then show ?thesis by simp
    next
      case (Cons p ps)
      with sp have "x \<in> set pre" by simp
      with lt show ?thesis by auto
    qed
    with True have bl: "key b < key m" by simp
    have res: "max_from key b (x # xs) = m"
      using True by (simp add: m_def)
    have "b # x # xs = (b # pre) @ m # post"
      using sp by simp
    moreover have "\<forall>y \<in> set (b # pre). key y < key m"
      using lt bl by simp
    ultimately show ?thesis
      unfolding res using le by blast
  next
    case False
    define m where "m = max_from key b xs"
    from Cons.IH [of b] obtain pre post where
      sp: "b # xs = pre @ m # post"
      and lt: "\<forall>y \<in> set pre. key y < key m"
      and le: "\<forall>y \<in> set post. key y \<le> key m"
      unfolding m_def by blast
    have res: "max_from key b (x # xs) = m"
      using False by (simp add: m_def)
    show ?thesis
    proof (cases pre)
      case Nil
      with sp have b: "b = m" and xs: "xs = post" by simp_all
      have "b # x # xs = [] @ m # (x # post)"
        using b xs by simp
      moreover have "\<forall>y \<in> set (x # post). key y \<le> key m"
        using le False b by auto
      moreover have "\<forall>y \<in> set []. key y < key m"
        by simp
      ultimately show ?thesis
        unfolding res by blast
    next
      case (Cons p ps)
      with sp have pb: "p = b" and xs: "xs = ps @ m # post" by simp_all
      have bl: "key b < key m"
        using lt Cons pb by simp
      have "b # x # xs = (b # x # ps) @ m # post"
        using xs by simp
      moreover have "\<forall>y \<in> set (b # x # ps). key y < key m"
        using lt Cons pb bl False by auto
      ultimately show ?thesis
        unfolding res using le by blast
    qed
  qed
qed

lemma py_max_split:
  assumes "py_max key xs = Inr m"
  shows "\<exists>pre post. xs = pre @ m # post
     \<and> (\<forall>x \<in> set pre. key x < key m) \<and> (\<forall>x \<in> set post. key x \<le> key m)"
proof (cases xs)
  case Nil
  with assms show ?thesis by (simp add: py_max_def)
next
  case (Cons b rest)
  with assms have "m = max_from key b rest" by (simp add: py_max_def)
  with max_from_split [of b rest key] Cons show ?thesis by simp
qed

lemma py_max_total: "xs \<noteq> [] \<Longrightarrow> \<exists>m. py_max key xs = Inr m"
  by (cases xs) (simp_all add: py_max_def)

lemma py_max_empty: "py_max key [] = Inl ValueError"
  by (simp add: py_max_def)

subsection \<open>The best topic of a review\<close>

text \<open>
  Claim C7, as the code has it. Whenever the classifier's answer for a review has at least
  one label and one score, \<open>best_of\<close> returns a pair, and the pair it returns is an
  element of \<^verbatim>\<open>zip(res['labels'], res['scores'])\<close> whose score is maximal: every pair before
  it has a strictly smaller score and no pair behind it has a greater one. A tie is
  therefore broken by first occurrence in the label sequence the classifier returned for
  that review, not by the position of the label in \<open>LABELS\<close>.
\<close>

theorem best_topic_first_maximum:
  "(labels res \<noteq> [] \<and> scores res \<noteq> [] \<longrightarrow> (\<exists>t sc. best_of res = Inr (t, sc)))
   \<and> (\<forall>best_topic best_score. best_of res = Inr (best_topic, best_score) \<longrightarrow>
         (\<exists>pre post. zip (labels res) (scores res) = pre @ (best_topic, best_score) # post
            \<and> (\<forall>p \<in> set pre. snd p < best_score)
            \<and> (\<forall>p \<in> set post. snd p \<le> best_score)))"
proof (intro conjI impI allI)
  assume "labels res \<noteq> [] \<and> scores res \<noteq> []"
  then have "zip (labels res) (scores res) \<noteq> []"
    by (cases "labels res"; cases "scores res") simp_all
  from py_max_total [OF this, of snd] show "\<exists>t sc. best_of res = Inr (t, sc)"
    by (auto simp: best_of_def)
next
  fix best_topic best_score
  assume "best_of res = Inr (best_topic, best_score)"
  then have "py_max snd (zip (labels res) (scores res)) = Inr (best_topic, best_score)"
    by (simp add: best_of_def)
  from py_max_split [OF this]
  show "\<exists>pre post. zip (labels res) (scores res) = pre @ (best_topic, best_score) # post
            \<and> (\<forall>p \<in> set pre. snd p < best_score)
            \<and> (\<forall>p \<in> set post. snd p \<le> best_score)"
    by simp
qed

text \<open>The tied answer \<open>tie_result\<close> evaluated.\<close>

lemma best_of_tie_result: "best_of tie_result = Inr (''Service'', 9 / 10)"
  by (simp add: best_of_def tie_result_def py_max_def)

theorem best_topic_first_maximum_witness:
  "\<exists>pre post. zip (labels tie_result) (scores tie_result) = pre @ (''Service'', 9 / 10) # post
      \<and> (\<forall>p \<in> set pre. snd p < 9 / 10) \<and> (\<forall>p \<in> set post. snd p \<le> 9 / 10)"
  using best_topic_first_maximum [of tie_result] best_of_tie_result by blast

theorem tie_break_counterexample:
  "best_of tie_result = Inr (''Service'', 9 / 10)
   \<and> first_label_with_max_score tie_result = Some ''Quality & Effectiveness''"
  by (simp add: best_of_def tie_result_def py_max_def first_label_with_max_score_def LABELS_def)

subsection \<open>The cache around \<^verbatim>\<open>cached_inference\<close>\<close>

lemma maxsize_pos: "take maxsize (p # ps) = p # take (maxsize - 1) ps"
  by (simp add: maxsize_def)

lemma cached_inference_hit:
  "map_of (cache s) asin = Some r \<Longrightarrow>
   cached_inference df clf asin s =
     (Inr r, s\<lparr>cache := (asin, r) # filter (\<lambda>p. fst p \<noteq> asin) (cache s)\<rparr>)"
  by (simp add: cached_inference_def)

lemma cached_inference_miss:
  "map_of (cache s) asin = None \<Longrightarrow>
   cached_inference df clf asin s =
     (case inference df clf asin s of
        (Inl e, s') \<Rightarrow> (Inl e, s')
      | (Inr r, s') \<Rightarrow> (Inr r, s'\<lparr>cache := take maxsize ((asin, r) # cache s')\<rparr>))"
  by (simp add: cached_inference_def)

lemma inference_cache: "cache (snd (inference df clf asin s)) = cache s"
  by (simp add: inference_def Let_def split: list.splits sum.splits)

lemma inference_not_found:
  "product_reviews df asin = [] \<Longrightarrow> inference df clf asin s = (Inr None, s)"
  by (simp add: inference_def)

lemma inference_calls:
  "product_reviews df asin \<noteq> [] \<Longrightarrow> calls (snd (inference df clf asin s)) = Suc (calls s)"
  by (simp add: inference_def Let_def split: list.splits sum.splits)

lemma cached_inference_stores:
  assumes "cached_inference df clf asin s = (Inr r, s1)"
  shows "map_of (cache s1) asin = Some r"
proof (cases "map_of (cache s) asin")
  case (Some r')
  with assms show ?thesis
    by (auto simp: cached_inference_hit)
next
  case None
  with assms show ?thesis
    by (auto simp: cached_inference_miss maxsize_pos split: prod.splits sum.splits)
qed

lemma cached_inference_failure_keeps_cache:
  assumes "cached_inference df clf asin s = (Inl e, s1)"
  shows "cache s1 = cache s"
proof (cases "map_of (cache s) asin")
  case (Some r')
  with assms show ?thesis
    by (auto simp: cached_inference_hit)
next
  case None
  with assms inference_cache [of df clf asin s] show ?thesis
    by (auto simp: cached_inference_miss split: prod.splits sum.splits)
qed

lemma cached_inference_calls_le:
  "calls (snd (cached_inference df clf asin s)) \<le> Suc (calls s)"
proof (cases "map_of (cache s) asin")
  case (Some r')
  then show ?thesis by (simp add: cached_inference_hit)
next
  case None
  have "calls (snd (inference df clf asin s)) \<le> Suc (calls s)"
    by (simp add: inference_def Let_def split: list.splits sum.splits)
  with None show ?thesis
    by (auto simp: cached_inference_miss split: prod.splits sum.splits)
qed

text \<open>
  Claim C1, as the code has it. For an ASIN without reviews in the store that is not in the
  cache, \<open>analyze_product\<close> raises the 404 exception, and the \<^verbatim>\<open>lru_cache\<close> stores the
  \<^verbatim>\<open>None\<close> that \<^verbatim>\<open>cached_inference\<close> returned: afterwards the cache holds an entry for
  the key, and a later request for the same ASIN is answered with 404 from that entry,
  whatever the store then contains and without a call of the classifier.
\<close>

theorem negative_result_is_cached:
  assumes "product_reviews df asin = []" and "map_of (cache s) asin = None"
  shows "analyze_product df clf asin s =
           (Inl (HTTPException 404), s\<lparr>cache := take maxsize ((asin, None) # cache s)\<rparr>)
         \<and> map_of (cache (snd (analyze_product df clf asin s))) asin = Some None
         \<and> (\<forall>df' clf'.
               fst (analyze_product df' clf' asin (snd (analyze_product df clf asin s)))
                 = Inl (HTTPException 404)
               \<and> calls (snd (analyze_product df' clf' asin (snd (analyze_product df clf asin s))))
                 = calls s)"
proof -
  let ?s1 = "s\<lparr>cache := take maxsize ((asin, None) # cache s)\<rparr>"
  have first: "analyze_product df clf asin s = (Inl (HTTPException 404), ?s1)"
    using assms by (simp add: analyze_product_def cached_inference_miss inference_not_found)
  have stored: "map_of (cache ?s1) asin = Some None"
    by (simp add: maxsize_pos)
  have later: "analyze_product df' clf' asin ?s1 =
      (Inl (HTTPException 404), ?s1\<lparr>cache := (asin, None) # filter (\<lambda>p. fst p \<noteq> asin) (cache ?s1)\<rparr>)"
    for df' clf'
    using cached_inference_hit [OF stored, of df' clf'] by (simp add: analyze_product_def)
  show ?thesis
    unfolding first snd_conv using stored later by simp
qed

text \<open>
  Claim C2. When a call of \<open>analyze_product\<close> returns an analysis, the next call for the
  same ASIN returns the identical analysis and leaves the number of classifier calls
  unchanged, whatever the store and the classifier would answer by then; the entry stays
  in the cache, and the first call itself has run the classifier at most once.
\<close>

theorem cache_idempotence:
  assumes "analyze_product df clf asin s = (Inr r, s1)"
  shows "fst (analyze_product df' clf' asin s1) = Inr r
         \<and> calls (snd (analyze_product df' clf' asin s1)) = calls s1
         \<and> map_of (cache (snd (analyze_product df' clf' asin s1))) asin = Some (Some r)
         \<and> calls s1 \<le> Suc (calls s)"
proof -
  from assms have ci: "cached_inference df clf asin s = (Inr (Some r), s1)"
    by (auto simp: analyze_product_def split: prod.splits sum.splits option.splits)
  then have stored: "map_of (cache s1) asin = Some (Some r)"
    by (rule cached_inference_stores)
  have second: "analyze_product df' clf' asin s1 =
      (Inr r, s1\<lparr>cache := (asin, Some r) # filter (\<lambda>p. fst p \<noteq> asin) (cache s1)\<rparr>)"
    using cached_inference_hit [OF stored, of df' clf'] by (simp add: analyze_product_def)
  have "calls s1 \<le> Suc (calls s)"
    using cached_inference_calls_le [of df clf asin s] ci by simp
  with second show ?thesis by simp
qed


lemma inference_reviews:
  assumes "product_reviews df asin = meta # others"
  shows "inference df clf asin s =
     (case clf (calls s) (map (\<lambda>r. clean_text (review_text r)) (target_reviews (meta # others))) LABELS of
        Inl e \<Rightarrow> (Inl e, s\<lparr>calls := Suc (calls s)\<rparr>)
      | Inr results \<Rightarrow>
          (case assemble (meta # others) meta (target_reviews (meta # others))
                  (map (\<lambda>r. clean_text (review_text r)) (target_reviews (meta # others))) results of
             Inl e \<Rightarrow> (Inl e, s\<lparr>calls := Suc (calls s)\<rparr>)
           | Inr r \<Rightarrow> (Inr (Some r), s\<lparr>calls := Suc (calls s)\<rparr>)))"
  using assms by (simp add: inference_def Let_def split: sum.splits)

text \<open>
  Claim C9. For an uncached ASIN with at least one review whose classifier call raises, the
  whole request fails with that exception and the cache is unchanged; the next request for
  the same ASIN calls the classifier again and runs the whole pipeline on its answer. More
  generally no failing request for such an ASIN, whatever the classifier does, changes the
  cache.
\<close>

theorem classifier_failure_not_cached:
  assumes reviews: "product_reviews df asin = meta # others"
    and uncached: "map_of (cache s) asin = None"
    and fails: "clf (calls s) (map (\<lambda>r. clean_text (review_text r)) (target_reviews (meta # others)))
                  LABELS = Inl e"
  shows "analyze_product df clf asin s = (Inl e, s\<lparr>calls := Suc (calls s)\<rparr>)
    \<and> analyze_product df clf asin (s\<lparr>calls := Suc (calls s)\<rparr>) =
        (case clf (Suc (calls s))
                (map (\<lambda>r. clean_text (review_text r)) (target_reviews (meta # others))) LABELS of
           Inl e' \<Rightarrow> (Inl e', s\<lparr>calls := Suc (Suc (calls s))\<rparr>)
         | Inr results \<Rightarrow>
             (case assemble (meta # others) meta (target_reviews (meta # others))
                     (map (\<lambda>r. clean_text (review_text r)) (target_reviews (meta # others))) results of
                Inl e' \<Rightarrow> (Inl e', s\<lparr>calls := Suc (Suc (calls s))\<rparr>)
              | Inr r \<Rightarrow>
                  (Inr r, s\<lparr>calls := Suc (Suc (calls s)),
                            cache := take maxsize ((asin, Some r) # cache s)\<rparr>)))
    \<and> (\<forall>clf' e' t. analyze_product df clf' asin s = (Inl e', t) \<longrightarrow> cache t = cache s)"
proof (intro conjI allI impI)
  show "analyze_product df clf asin s = (Inl e, s\<lparr>calls := Suc (calls s)\<rparr>)"
    using uncached fails
    by (simp add: analyze_product_def cached_inference_miss inference_reviews [OF reviews])
next
  have "map_of (cache (s\<lparr>calls := Suc (calls s)\<rparr>)) asin = None"
    using uncached by simp
  then show "analyze_product df clf asin (s\<lparr>calls := Suc (calls s)\<rparr>) =
        (case clf (Suc (calls s))
                (map (\<lambda>r. clean_text (review_text r)) (target_reviews (meta # others))) LABELS of
           Inl e' \<Rightarrow> (Inl e', s\<lparr>calls := Suc (Suc (calls s))\<rparr>)
         | Inr results \<Rightarrow>
             (case assemble (meta # others) meta (target_reviews (meta # others))
                     (map (\<lambda>r. clean_text (review_text r)) (target_reviews (meta # others))) results of
                Inl e' \<Rightarrow> (Inl e', s\<lparr>calls := Suc (Suc (calls s))\<rparr>)
              | Inr r \<Rightarrow>
                  (Inr r, s\<lparr>calls := Suc (Suc (calls s)),
                            cache := take maxsize ((asin, Some r) # cache s)\<rparr>)))"
    by (simp add: analyze_product_def cached_inference_miss inference_reviews [OF reviews]
          split: sum.splits)
next
  fix clf' e' t
  assume a: "analyze_product df clf' asin s = (Inl e', t)"
  have "fst (inference df clf' asin s) \<noteq> Inr None"
    by (simp add: inference_reviews [OF reviews] split: sum.splits)
  with uncached have "fst (cached_inference df clf' asin s) \<noteq> Inr None"
    by (auto simp: cached_inference_miss split: prod.splits sum.splits)
  with a have "cached_inference df clf' asin s = (Inl e', t)"
    by (auto simp: analyze_product_def split: prod.splits sum.splits option.splits)
  then show "cache t = cache s"
    by (rule cached_inference_failure_keeps_cache)
qed


lemma sample_first_call:
  "analyze_product sample_df clf_stub ''B00YQ6X8EO'' empty_server =
     (Inr sample_result, \<lparr>cache = [(''B00YQ6X8EO'', Some sample_result)], calls = 1\<rparr>)"
  by code_simp

lemma sample_reviews: "product_reviews sample_df ''B00YQ6X8EO'' = row1 # [row2]"
  by code_simp

lemma sample_no_reviews: "product_reviews [row3] ''B00YQ6X8EO'' = []"
  by code_simp

lemma sample_texts:
  "map (\<lambda>r. clean_text (review_text r)) (target_reviews (row1 # [row2])) =
     [''Great smell, arrived fast'', ''Broke on arrival, unsafe'']"
  by code_simp

lemma sample_assemble:
  "assemble (row1 # [row2]) row1 (target_reviews (row1 # [row2]))
     [''Great smell, arrived fast'', ''Broke on arrival, unsafe''] stub_results = Inr sample_result"
  by code_simp

text \<open>
  The theorem at a store without reviews of \<open>B00YQ6X8EO\<close>; the later request goes to a
  store that has them.
\<close>

theorem negative_result_is_cached_witness:
  "product_reviews [row3] ''B00YQ6X8EO'' = []
   \<and> map_of (cache empty_server) ''B00YQ6X8EO'' = None
   \<and> map_of (cache (snd (analyze_product [row3] clf_stub ''B00YQ6X8EO'' empty_server)))
        ''B00YQ6X8EO'' = Some None
   \<and> fst (analyze_product sample_df clf_stub ''B00YQ6X8EO''
            (snd (analyze_product [row3] clf_stub ''B00YQ6X8EO'' empty_server)))
        = Inl (HTTPException 404)"
proof -
  have h1: "product_reviews [row3] ''B00YQ6X8EO'' = []"
    by (rule sample_no_reviews)
  have h2: "map_of (cache empty_server) ''B00YQ6X8EO'' = None"
    by (simp add: empty_server_def)
  from negative_result_is_cached [OF h1 h2, of clf_stub] h1 h2 show ?thesis
    by blast
qed

text \<open>
  The claim as stated fails: after the request for \<open>UNKNOWN_ASIN\<close> the cache has an entry
  for that key.
\<close>

theorem negative_result_counterexample:
  "fst (analyze_product sample_df clf_stub ''UNKNOWN_ASIN'' empty_server) = Inl (HTTPException 404)
   \<and> map_of (cache (snd (analyze_product sample_df clf_stub ''UNKNOWN_ASIN'' empty_server)))
        ''UNKNOWN_ASIN'' \<noteq> None"
  by code_simp

text \<open>
  The theorem at \<open>B00YQ6X8EO\<close>: the second call is served although the classifier is down.
\<close>

theorem cache_idempotence_witness:
  "analyze_product sample_df clf_stub ''B00YQ6X8EO'' empty_server =
     (Inr sample_result, \<lparr>cache = [(''B00YQ6X8EO'', Some sample_result)], calls = 1\<rparr>)
   \<and> fst (analyze_product sample_df clf_down ''B00YQ6X8EO''
            \<lparr>cache = [(''B00YQ6X8EO'', Some sample_result)], calls = 1\<rparr>) = Inr sample_result
   \<and> calls (snd (analyze_product sample_df clf_down ''B00YQ6X8EO''
            \<lparr>cache = [(''B00YQ6X8EO'', Some sample_result)], calls = 1\<rparr>)) = 1"
  using cache_idempotence [OF sample_first_call, of sample_df clf_down] sample_first_call
  by simp

text \<open>
  The theorem with a classifier that fails on its first call only: the retry succeeds.
\<close>

theorem classifier_failure_not_cached_witness:
  "product_reviews sample_df ''B00YQ6X8EO'' = row1 # [row2]
   \<and> map_of (cache empty_server) ''B00YQ6X8EO'' = None
   \<and> clf_flaky (calls empty_server)
        (map (\<lambda>r. clean_text (review_text r)) (target_reviews (row1 # [row2]))) LABELS
        = Inl ClassifierError
   \<and> analyze_product sample_df clf_flaky ''B00YQ6X8EO'' empty_server =
        (Inl ClassifierError, empty_server\<lparr>calls := Suc (calls empty_server)\<rparr>)
   \<and> analyze_product sample_df clf_flaky ''B00YQ6X8EO''
        (empty_server\<lparr>calls := Suc (calls empty_server)\<rparr>) =
        (Inr sample_result,
         empty_server\<lparr>calls := Suc (Suc (calls empty_server)),
                       cache := take maxsize ((''B00YQ6X8EO'', Some sample_result) # cache empty_server)\<rparr>)"
proof -
  have h1: "product_reviews sample_df ''B00YQ6X8EO'' = row1 # [row2]"
    by (rule sample_reviews)
  have h2: "map_of (cache empty_server) ''B00YQ6X8EO'' = None"
    by (simp add: empty_server_def)
  have h3: "clf_flaky (calls empty_server)
        (map (\<lambda>r. clean_text (review_text r)) (target_reviews (row1 # [row2]))) LABELS
        = Inl ClassifierError"
    by (simp add: clf_flaky_def empty_server_def)
  have retry: "clf_flaky (Suc (calls empty_server))
        [''Great smell, arrived fast'', ''Broke on arrival, unsafe''] LABELS = Inr stub_results"
    by (simp add: clf_flaky_def)
  note th = classifier_failure_not_cached [where clf = clf_flaky, OF h1 h2 h3]
  have first: "analyze_product sample_df clf_flaky ''B00YQ6X8EO'' empty_server =
        (Inl ClassifierError, empty_server\<lparr>calls := Suc (calls empty_server)\<rparr>)"
    using th by (rule conjunct1)
  have second: "analyze_product sample_df clf_flaky ''B00YQ6X8EO''
        (empty_server\<lparr>calls := Suc (calls empty_server)\<rparr>) =
        (Inr sample_result,
         empty_server\<lparr>calls := Suc (Suc (calls empty_server)),
                       cache := take maxsize ((''B00YQ6X8EO'', Some sample_result) # cache empty_server)\<rparr>)"
    using th [THEN conjunct2, THEN conjunct1]
    unfolding sample_texts by (simp add: retry sample_assemble)
  from h1 h2 h3 first second show ?thesis
    by (intro conjI)
qed

subsection \<open>Rounding to a float\<close>

lemma round_half_even_near: "\<bar>of_int (round_half_even x) - x\<bar> \<le> 1 / 2"
proof -
  define f where "f = \<lfloor>x\<rfloor>"
  define d where "d = x - of_int f"
  have d0: "0 \<le> d" and d1: "d < 1"
    unfolding d_def f_def by linarith+
  have x: "x = of_int f + d"
    by (simp add: d_def)
  have r: "round_half_even x = (if d < 1 / 2 then f else if 1 / 2 < d then f + 1
             else if even f then f else f + 1)"
    by (simp add: round_half_even_def Let_def f_def d_def)
  show ?thesis
  proof (cases "d < 1 / 2")
    case True
    with r d0 x show ?thesis by simp
  next
    case False
    show ?thesis
    proof (cases "1 / 2 < d")
      case True
      with r d1 x False show ?thesis by simp
    next
      case F2: False
      with False have "d = 1 / 2" by simp
      with r x show ?thesis by (cases "even f") simp_all
    qed
  qed
qed

lemma round_half_even_ge_floor: "\<lfloor>x\<rfloor> \<le> round_half_even x"
  by (simp add: round_half_even_def Let_def)

lemma round_half_even_le_int:
  assumes "x \<le> of_int n"
  shows "round_half_even x \<le> n"
proof -
  have fl: "\<lfloor>x\<rfloor> \<le> n"
    using assms by (simp add: floor_le_iff)
  show ?thesis
  proof (cases "\<lfloor>x\<rfloor> = n")
    case True
    with assms have "x - of_int \<lfloor>x\<rfloor> \<le> 0" by simp
    then have "x - of_int \<lfloor>x\<rfloor> < 1 / 2" by simp
    then show ?thesis
      using True by (simp add: round_half_even_def Let_def)
  next
    case False
    with fl have "\<lfloor>x\<rfloor> + 1 \<le> n" by simp
    then show ?thesis
      by (simp add: round_half_even_def Let_def)
  qed
qed

lemma bitlen_rat_bounds:
  assumes "0 < a"
  shows "2 powi (bitlen a - 1) \<le> (of_int a :: rat)" and "(of_int a :: rat) < 2 powi bitlen a"
proof -
  from bitlen_bounds [OF assms]
  have lo: "2 ^ nat (bitlen a - 1) \<le> a" and hi: "a < 2 ^ nat (bitlen a)" by simp_all
  have b1: "1 \<le> bitlen a"
    using assms by (auto simp: bitlen_alt_def)
  have "(of_int (2 ^ nat (bitlen a - 1)) :: rat) \<le> of_int a"
    using lo by (simp only: of_int_le_iff)
  then show "2 powi (bitlen a - 1) \<le> (of_int a :: rat)"
    using b1 by (simp add: power_int_def)
  have "(of_int a :: rat) < of_int (2 ^ nat (bitlen a))"
    using hi by (simp only: of_int_less_iff)
  then show "(of_int a :: rat) < 2 powi bitlen a"
    using b1 by (simp add: power_int_def)
qed

lemma ilog2_bounds:
  assumes "0 < x"
  shows "2 powi ilog2 x \<le> x" and "x < 2 powi (ilog2 x + 1)"
proof -
  obtain a b where q: "quotient_of x = (a, b)"
    by (cases "quotient_of x")
  have bpos: "0 < b"
    using q by (rule quotient_of_denom_pos)
  have x: "x = of_int a / of_int b"
    using q by (rule quotient_of_div)
  have apos: "0 < a"
    using assms bpos unfolding x by (simp add: zero_less_divide_iff)
  define e0 where "e0 = bitlen a - bitlen b"
  have il: "ilog2 x = (if 2 powi e0 \<le> x then e0 else e0 - 1)"
    by (simp add: ilog2_def q e0_def Let_def)
  note A = bitlen_rat_bounds [OF apos]
  note B = bitlen_rat_bounds [OF bpos]
  have bq: "(0::rat) < of_int b" using bpos by simp
  have aq: "(0::rat) < of_int a" using apos by simp
  have up: "x < 2 powi (e0 + 1)"
  proof -
    have "x < 2 powi bitlen a / 2 powi (bitlen b - 1)"
      unfolding x using A(2) B(1) aq
      by (intro frac_less) simp_all
    also have "\<dots> = 2 powi (bitlen a - (bitlen b - 1))"
      by (simp add: power_int_diff)
    also have "bitlen a - (bitlen b - 1) = e0 + 1"
      by (simp add: e0_def)
    finally show ?thesis .
  qed
  have lo: "2 powi (e0 - 1) \<le> x"
  proof -
    have "2 powi (e0 - 1) = 2 powi ((bitlen a - 1) - bitlen b)"
      by (simp add: e0_def algebra_simps)
    also have "\<dots> = 2 powi (bitlen a - 1) / (2 powi bitlen b :: rat)"
      by (simp add: power_int_diff)
    also have "\<dots> \<le> of_int a / of_int b"
      using A(1) B(2) bq aq by (intro frac_le) simp_all
    finally show ?thesis by (simp add: x)
  qed
  show "2 powi ilog2 x \<le> x"
    using lo by (simp add: il)
  show "x < 2 powi (ilog2 x + 1)"
    using up by (auto simp: il)
qed


lemma fl53_scaled:
  assumes pos: "0 < x"
  defines "e \<equiv> ilog2 x - 52"
  shows "2 ^ 52 \<le> x / 2 powi e" and "x / 2 powi e < 2 ^ 53"
    and "fl53 x = of_int (round_half_even (x / 2 powi e)) * 2 powi e"
proof -
  have p: "(0::rat) < 2 powi e" by simp
  have "2 powi ilog2 x = (2 powi 52 :: rat) * 2 powi e"
    unfolding e_def by (subst power_int_add [symmetric]) simp_all
  with ilog2_bounds(1) [OF pos] have "2 ^ 52 * 2 powi e \<le> x" by simp
  then show "2 ^ 52 \<le> x / 2 powi e"
    using p by (simp add: pos_le_divide_eq)
  have eq2: "ilog2 x + 1 = 53 + e"
    by (simp add: e_def)
  have "2 powi (ilog2 x + 1) = (2 powi 53 :: rat) * 2 powi e"
    unfolding eq2 by (rule power_int_add) simp
  with ilog2_bounds(2) [OF pos] have "x < 2 ^ 53 * 2 powi e" by simp
  then show "x / 2 powi e < 2 ^ 53"
    using p by (simp add: pos_divide_less_eq)
  show "fl53 x = of_int (round_half_even (x / 2 powi e)) * 2 powi e"
    using pos by (simp add: fl53_def Let_def e_def)
qed

lemma fl53_zero: "fl53 0 = 0"
  by (simp add: fl53_def)

lemma fl53_error:
  assumes "0 \<le> x"
  shows "\<bar>fl53 x - x\<bar> \<le> x / 2 ^ 53"
proof (cases "x = 0")
  case True
  then show ?thesis by (simp add: fl53_zero)
next
  case False
  with assms have pos: "0 < x" by simp
  define e where "e = ilog2 x - 52"
  define y where "y = x / 2 powi e"
  have p: "(0::rat) < 2 powi e" by simp
  have xy: "x = y * 2 powi e"
    using p by (simp add: y_def)
  have ylo: "2 ^ 52 \<le> y"
    using fl53_scaled(1) [OF pos] by (simp add: y_def e_def)
  have fl: "fl53 x = of_int (round_half_even y) * 2 powi e"
    using fl53_scaled(3) [OF pos] by (simp add: y_def e_def)
  have "fl53 x - x = (of_int (round_half_even y) - y) * 2 powi e"
    by (simp add: fl xy [symmetric] algebra_simps)
  then have "\<bar>fl53 x - x\<bar> = \<bar>of_int (round_half_even y) - y\<bar> * 2 powi e"
    using p by (simp add: abs_mult)
  also have "\<dots> \<le> (1 / 2) * 2 powi e"
    using round_half_even_near [of y] p by (intro mult_right_mono) simp_all
  also have "\<dots> \<le> (y / 2 ^ 53) * 2 powi e"
    using ylo p by (intro mult_right_mono) simp_all
  also have "\<dots> = x / 2 ^ 53"
    by (simp add: xy)
  finally show ?thesis .
qed

lemma fl53_pos:
  assumes "0 < x"
  shows "0 < fl53 x"
proof -
  define e where "e = ilog2 x - 52"
  define y where "y = x / 2 powi e"
  have ylo: "2 ^ 52 \<le> y"
    using fl53_scaled(1) [OF assms] by (simp add: y_def e_def)
  have fl: "fl53 x = of_int (round_half_even y) * 2 powi e"
    using fl53_scaled(3) [OF assms] by (simp add: y_def e_def)
  have "(0::int) < 2 ^ 52" by simp
  also have "(2 ^ 52 :: int) \<le> \<lfloor>y\<rfloor>"
    using ylo by (simp add: le_floor_iff)
  also have "\<lfloor>y\<rfloor> \<le> round_half_even y"
    by (rule round_half_even_ge_floor)
  finally have "0 < round_half_even y" .
  then show ?thesis
    unfolding fl by (simp add: zero_less_mult_iff)
qed

lemma fl53_nonneg: "0 \<le> fl53 x"
  using fl53_pos [of x] by (cases "0 < x") (simp_all add: fl53_def)

lemma fl53_le_one:
  assumes "x \<le> 1"
  shows "fl53 x \<le> 1"
proof (cases "0 < x")
  case False
  then show ?thesis by (simp add: fl53_def)
next
  case True
  define e where "e = ilog2 x - 52"
  define y where "y = x / 2 powi e"
  have fl: "fl53 x = of_int (round_half_even y) * 2 powi e"
    using fl53_scaled(3) [OF True] by (simp add: y_def e_def)
  have "ilog2 x \<le> 0"
  proof (rule ccontr)
    assume "\<not> ilog2 x \<le> 0"
    then have "1 \<le> ilog2 x" by simp
    then have "(2::rat) powi 1 \<le> 2 powi ilog2 x"
      by (intro power_int_increasing) simp_all
    with ilog2_bounds(1) [OF True] assms show False by simp
  qed
  then have eneg: "e \<le> 0" by (simp add: e_def)
  define n where "n = nat (- e)"
  have pe: "(2::rat) powi e = 1 / 2 ^ n"
    using eneg by (simp add: power_int_def n_def field_simps)
  have "y = x * 2 ^ n"
    by (simp add: y_def pe)
  also have "\<dots> \<le> 1 * 2 ^ n"
    using assms by (intro mult_right_mono) simp_all
  finally have "y \<le> of_int (2 ^ n)" by simp
  then have "round_half_even y \<le> 2 ^ n"
    by (rule round_half_even_le_int)
  then have "(of_int (round_half_even y) :: rat) \<le> of_int (2 ^ n)"
    by (simp only: of_int_le_iff)
  then have "(of_int (round_half_even y) :: rat) * 2 powi e \<le> of_int (2 ^ n) * 2 powi e"
    by (intro mult_right_mono) simp_all
  also have "\<dots> = 1"
    by (simp add: pe)
  finally show ?thesis by (simp add: fl)
qed

subsection \<open>Dictionaries and the loop of \<^verbatim>\<open>cached_inference\<close>\<close>

lemma dict_set_keys:
  "map fst (dict_set k v d) = (if k \<in> set (map fst d) then map fst d else map fst d @ [k])"
  by (induction d) auto

lemma dict_set_key_set: "set (map fst (dict_set k v d)) = insert k (set (map fst d))"
  by (auto simp: dict_set_keys)

lemma dict_set_distinct: "distinct (map fst d) \<Longrightarrow> distinct (map fst (dict_set k v d))"
  by (simp add: dict_set_keys)

lemma dict_set_sum:
  "sum_list (map snd (dict_set k (dict_get d k 0 + n) d)) = sum_list (map snd d) + (n::nat)"
  by (induction d) (auto simp: dict_get_def)

lemma dict_set_positive:
  "\<forall>p \<in> set d. 0 < snd p \<Longrightarrow> 0 < (v::nat) \<Longrightarrow> \<forall>p \<in> set (dict_set k v d). 0 < snd p"
  by (induction d) auto

lemma dict_incr_sum:
  "dict_incr k d = Inr d' \<Longrightarrow> sum_list (map snd d') = Suc (sum_list (map snd d))"
  using dict_set_sum [of k d 1]
  by (auto simp: dict_incr_def dict_item_def dict_get_def split: option.splits)

lemma dict_incr_keys:
  assumes "dict_incr k d = Inr d'"
  shows "map fst d' = map fst d"
proof -
  from assms obtain v where v: "map_of d k = Some v" and d': "d' = dict_set k (v + 1) d"
    by (auto simp: dict_incr_def dict_item_def split: option.splits)
  from v have "k \<in> set (map fst d)"
    by (metis domI dom_map_of_conv_image_fst set_map)
  then show ?thesis
    by (simp add: d' dict_set_keys)
qed

lemma dict_incr_total: "k \<in> set (map fst d) \<Longrightarrow> \<exists>d'. dict_incr k d = Inr d'"
proof -
  assume "k \<in> set (map fst d)"
  then have "map_of d k \<noteq> None"
    by (simp add: map_of_eq_None_iff)
  then show ?thesis
    by (auto simp: dict_incr_def dict_item_def)
qed

lemma best_of_label:
  assumes "best_of res = Inr (t, sc)"
  shows "t \<in> set (labels res)"
proof -
  from assms have "py_max snd (zip (labels res) (scores res)) = Inr (t, sc)"
    by (simp add: best_of_def)
  from py_max_split [OF this] have "(t, sc) \<in> set (zip (labels res) (scores res))"
    by auto
  then show ?thesis by (rule set_zip_leftD)
qed

lemma loop_body_Inr:
  assumes "loop_body results raw_texts i row a = Inr a'"
  obtains best_topic best_score where
    "i < length results" and "best_of (results ! i) = Inr (best_topic, best_score)"
    and "i < length raw_texts"
    and "processed_reviews a' = processed_reviews a @
           [\<lparr>rd_text = raw_texts ! i, rd_rating = rating row,
             rd_topic = best_topic, rd_topic_score = best_score\<rparr>]"
    and "topic_counts a' =
           dict_set best_topic (dict_get (topic_counts a) best_topic 0 + 1) (topic_counts a)"
    and "dict_incr (sentiment_bucket (rating row)) (sentiment_counts a) = Inr (sentiment_counts a')"
  using assms
  by (auto simp: loop_body_def list_item_def Let_def split: sum.splits if_splits prod.splits)

lemma loop_length:
  "loop results raw_texts i rows a = Inr a' \<Longrightarrow>
   length (processed_reviews a') = length (processed_reviews a) + length rows"
proof (induction rows arbitrary: i a)
  case Nil
  then show ?case by simp
next
  case (Cons row rows)
  from Cons.prems obtain b where
    step: "loop_body results raw_texts i row a = Inr b"
    and rest: "loop results raw_texts (Suc i) rows b = Inr a'"
    by (auto split: sum.splits)
  from step have "length (processed_reviews b) = Suc (length (processed_reviews a))"
    by (elim loop_body_Inr) simp
  with Cons.IH [OF rest] show ?case by simp
qed

lemma loop_topic_sum:
  "loop results raw_texts i rows a = Inr a' \<Longrightarrow>
   sum_list (map snd (topic_counts a')) = sum_list (map snd (topic_counts a)) + length rows"
proof (induction rows arbitrary: i a)
  case Nil
  then show ?case by simp
next
  case (Cons row rows)
  from Cons.prems obtain b where
    step: "loop_body results raw_texts i row a = Inr b"
    and rest: "loop results raw_texts (Suc i) rows b = Inr a'"
    by (auto split: sum.splits)
  from step have "sum_list (map snd (topic_counts b)) = sum_list (map snd (topic_counts a)) + 1"
    by (elim loop_body_Inr) (simp only: dict_set_sum)
  with Cons.IH [OF rest] show ?case by simp
qed

lemma loop_sentiment_sum:
  "loop results raw_texts i rows a = Inr a' \<Longrightarrow>
   sum_list (map snd (sentiment_counts a')) = sum_list (map snd (sentiment_counts a)) + length rows"
proof (induction rows arbitrary: i a)
  case Nil
  then show ?case by simp
next
  case (Cons row rows)
  from Cons.prems obtain b where
    step: "loop_body results raw_texts i row a = Inr b"
    and rest: "loop results raw_texts (Suc i) rows b = Inr a'"
    by (auto split: sum.splits)
  from step have "sum_list (map snd (sentiment_counts b)) = Suc (sum_list (map snd (sentiment_counts a)))"
    by (elim loop_body_Inr) (rule dict_incr_sum)
  with Cons.IH [OF rest] show ?case by simp
qed

lemma loop_topic_positive:
  "loop results raw_texts i rows a = Inr a' \<Longrightarrow> \<forall>p \<in> set (topic_counts a). 0 < snd p \<Longrightarrow>
   \<forall>p \<in> set (topic_counts a'). 0 < snd p"
proof (induction rows arbitrary: i a)
  case Nil
  then show ?case by simp
next
  case (Cons row rows)
  from Cons.prems(1) obtain b where
    step: "loop_body results raw_texts i row a = Inr b"
    and rest: "loop results raw_texts (Suc i) rows b = Inr a'"
    by (auto split: sum.splits)
  from step obtain t where
    tc: "topic_counts b = dict_set t (dict_get (topic_counts a) t 0 + 1) (topic_counts a)"
    by (elim loop_body_Inr)
  have "\<forall>p \<in> set (topic_counts b). 0 < snd p"
    unfolding tc by (rule dict_set_positive [OF Cons.prems(2)]) simp
  with Cons.IH [OF rest] show ?case by simp
qed

lemma loop_topic_distinct:
  "loop results raw_texts i rows a = Inr a' \<Longrightarrow> distinct (map fst (topic_counts a)) \<Longrightarrow>
   distinct (map fst (topic_counts a'))"
proof (induction rows arbitrary: i a)
  case Nil
  then show ?case by simp
next
  case (Cons row rows)
  from Cons.prems(1) obtain b where
    step: "loop_body results raw_texts i row a = Inr b"
    and rest: "loop results raw_texts (Suc i) rows b = Inr a'"
    by (auto split: sum.splits)
  from step Cons.prems(2) have "distinct (map fst (topic_counts b))"
    by (elim loop_body_Inr) (simp only: dict_set_distinct)
  with Cons.IH [OF rest] show ?case by simp
qed


lemma loop_sentiment_tally:
  "loop results raw_texts i rows a = Inr a' \<Longrightarrow>
   sentiment_counts a = [(''Positive'', p), (''Negative'', n), (''Neutral'', u)] \<Longrightarrow>
   sentiment_counts a' =
     [(''Positive'', p + length (filter (\<lambda>r. 4 \<le> rating r) rows)),
      (''Negative'', n + length (filter (\<lambda>r. rating r \<le> 2) rows)),
      (''Neutral'', u + length (filter (\<lambda>r. rating r = 3) rows))]"
proof (induction rows arbitrary: i a p n u)
  case Nil
  then show ?case by simp
next
  case (Cons row rows)
  from Cons.prems(1) obtain b where
    step: "loop_body results raw_texts i row a = Inr b"
    and rest: "loop results raw_texts (Suc i) rows b = Inr a'"
    by (auto split: sum.splits)
  from step have inc: "dict_incr (sentiment_bucket (rating row)) (sentiment_counts a)
                         = Inr (sentiment_counts b)"
    by (elim loop_body_Inr)
  have b: "sentiment_counts b =
     [(''Positive'', p + (if 4 \<le> rating row then 1 else 0)),
      (''Negative'', n + (if rating row \<le> 2 then 1 else 0)),
      (''Neutral'', u + (if rating row = 3 then 1 else 0))]"
    using inc unfolding Cons.prems(2)
    by (auto simp: sentiment_bucket_def dict_incr_def dict_item_def split: if_splits)
  from Cons.IH [OF rest b] show ?case
    by simp
qed

lemma loop_new_reviews:
  "loop results raw_texts i rows a = Inr a' \<Longrightarrow>
   \<exists>new. processed_reviews a' = processed_reviews a @ new
     \<and> map rd_rating new = map rating rows
     \<and> set (map fst (topic_counts a')) = set (map fst (topic_counts a)) \<union> rd_topic ` set new
     \<and> (\<forall>r \<in> set new. \<exists>res \<in> set results. rd_topic r \<in> set (labels res))"
proof (induction rows arbitrary: i a)
  case Nil
  then show ?case by simp
next
  case (Cons row rows)
  from Cons.prems(1) obtain b where
    step: "loop_body results raw_texts i row a = Inr b"
    and rest: "loop results raw_texts (Suc i) rows b = Inr a'"
    by (auto split: sum.splits)
  from step obtain t sc where
    i: "i < length results" and best: "best_of (results ! i) = Inr (t, sc)"
    and pr: "processed_reviews b = processed_reviews a @
           [\<lparr>rd_text = raw_texts ! i, rd_rating = rating row, rd_topic = t, rd_topic_score = sc\<rparr>]"
    and tc: "topic_counts b = dict_set t (dict_get (topic_counts a) t 0 + 1) (topic_counts a)"
    by (elim loop_body_Inr)
  define d where "d = \<lparr>rd_text = raw_texts ! i, rd_rating = rating row, rd_topic = t, rd_topic_score = sc\<rparr>"
  from Cons.IH [OF rest] obtain new where
    n1: "processed_reviews a' = processed_reviews b @ new"
    and n2: "map rd_rating new = map rating rows"
    and n3: "set (map fst (topic_counts a')) = set (map fst (topic_counts b)) \<union> rd_topic ` set new"
    and n4: "\<forall>r \<in> set new. \<exists>res \<in> set results. rd_topic r \<in> set (labels res)"
    by blast
  have lab: "\<exists>res \<in> set results. rd_topic d \<in> set (labels res)"
    using best_of_label [OF best] i by (auto simp: d_def)
  have "processed_reviews a' = processed_reviews a @ (d # new)"
    by (simp add: n1 pr d_def)
  moreover have "map rd_rating (d # new) = map rating (row # rows)"
    by (simp add: n2 d_def)
  moreover have "set (map fst (topic_counts a')) =
      set (map fst (topic_counts a)) \<union> rd_topic ` set (d # new)"
    unfolding n3 tc dict_set_key_set by (auto simp: d_def)
  moreover have "\<forall>r \<in> set (d # new). \<exists>res \<in> set results. rd_topic r \<in> set (labels res)"
    using n4 lab by simp
  ultimately show ?case by blast
qed

lemma topic_percentages_eq:
  "0 < n \<Longrightarrow>
   topic_percentages tc n = Inr (map (\<lambda>kv. (fst kv, fl53 (of_nat (snd kv) / of_nat n))) tc)"
  by (induction tc) (auto simp: truediv_def)

lemma py_max_member: "py_max key xs = Inr m \<Longrightarrow> m \<in> set xs"
  by (auto dest: py_max_split)

lemma dict_item_key: "k \<in> set (map fst d) \<Longrightarrow> \<exists>v. dict_item d k = Inr v \<and> map_of d k = Some v"
proof -
  assume "k \<in> set (map fst d)"
  then have "map_of d k \<noteq> None"
    by (simp add: map_of_eq_None_iff)
  then show ?thesis
    by (auto simp: dict_item_def)
qed

lemma generate_smart_summary_total:
  assumes "tc \<noteq> []" and "sc \<noteq> []" and "0 < n"
  shows "\<exists>smry. generate_smart_summary tc sc n = Inr smry"
proof -
  from assms(1) have "map fst tc \<noteq> []" by simp
  from py_max_total [OF this] obtain top_topic where
    t: "py_max (map_of tc) (map fst tc) = Inr top_topic" by blast
  from dict_item_key [OF py_max_member [OF t]] obtain c where
    c: "dict_item tc top_topic = Inr c" by blast
  from assms(2) have "map fst sc \<noteq> []" by simp
  from py_max_total [OF this] obtain top_sentiment where
    s: "py_max (map_of sc) (map fst sc) = Inr top_sentiment" by blast
  show ?thesis
    using assms(3) by (simp add: generate_smart_summary_def t c s truediv_def)
qed

lemma assemble_Inr:
  assumes "assemble rows meta target raw_texts results = Inr res"
  obtains a where
    "loop results raw_texts 0 target init_agg = Inr a"
    and "generate_smart_summary (topic_counts a) (sentiment_counts a) (length (processed_reviews a))
           = Inr (ai_summary res)"
    and "topic_percentages (topic_counts a) (length (processed_reviews a)) = Inr (top_topics res)"
    and "total_reviews_local res = length rows"
    and "analyzed_count res = length (processed_reviews a)"
    and "reviews res = processed_reviews a"
    and "sentiment_breakdown res = sentiment_counts a"
  using assms
  by (auto simp: assemble_def Let_def split: sum.splits)

lemma loop_total:
  "i + length rows \<le> length results \<Longrightarrow> i + length rows \<le> length raw_texts \<Longrightarrow>
   \<forall>res \<in> set results. labels res \<noteq> [] \<and> scores res \<noteq> [] \<Longrightarrow>
   set (map fst (sentiment_counts a)) = {''Positive'', ''Negative'', ''Neutral''} \<Longrightarrow>
   \<exists>a'. loop results raw_texts i rows a = Inr a'"
proof (induction rows arbitrary: i a)
  case Nil
  then show ?case by simp
next
  case (Cons row rows)
  have i: "i < length results" and j: "i < length raw_texts"
    using Cons.prems(1,2) by simp_all
  then have "results ! i \<in> set results" by simp
  with Cons.prems(3) have ne: "labels (results ! i) \<noteq> [] \<and> scores (results ! i) \<noteq> []"
    by blast
  then have "zip (labels (results ! i)) (scores (results ! i)) \<noteq> []"
    by (cases "labels (results ! i)"; cases "scores (results ! i)") simp_all
  from py_max_total [OF this, of snd] obtain t sc where
    best: "best_of (results ! i) = Inr (t, sc)"
    by (auto simp: best_of_def)
  have "sentiment_bucket (rating row) \<in> set (map fst (sentiment_counts a))"
    unfolding Cons.prems(4) by (simp add: sentiment_bucket_def)
  from dict_incr_total [OF this] obtain sc' where
    inc: "dict_incr (sentiment_bucket (rating row)) (sentiment_counts a) = Inr sc'" by blast
  define b where "b = \<lparr>processed_reviews = processed_reviews a @
             [\<lparr>rd_text = raw_texts ! i, rd_rating = rating row,
               rd_topic = t, rd_topic_score = sc\<rparr>],
      topic_counts = dict_set t (dict_get (topic_counts a) t 0 + 1) (topic_counts a),
      sentiment_counts = sc'\<rparr>"
  have step: "loop_body results raw_texts i row a = Inr b"
    using i j best inc by (simp add: loop_body_def list_item_def Let_def b_def)
  have "set (map fst (sentiment_counts b)) = {''Positive'', ''Negative'', ''Neutral''}"
    using dict_incr_keys [OF inc] Cons.prems(4) by (simp add: b_def)
  moreover have "Suc i + length rows \<le> length results" "Suc i + length rows \<le> length raw_texts"
    using Cons.prems(1,2) by simp_all
  ultimately obtain a' where "loop results raw_texts (Suc i) rows b = Inr a'"
    using Cons.IH [of "Suc i" b] Cons.prems(3) by blast
  with step show ?case by simp
qed

lemma assemble_total:
  assumes "target \<noteq> []" and "length target \<le> length results"
    and "length raw_texts = length target"
    and "\<forall>res \<in> set results. labels res \<noteq> [] \<and> scores res \<noteq> []"
  shows "\<exists>res. assemble rows meta target raw_texts results = Inr res"
proof -
  have "\<exists>a. loop results raw_texts 0 target init_agg = Inr a"
    using assms by (intro loop_total) (auto simp: init_agg_def)
  then obtain a where a: "loop results raw_texts 0 target init_agg = Inr a" by blast
  from loop_length [OF a] have len: "length (processed_reviews a) = length target"
    by (simp add: init_agg_def)
  with assms(1) have pos: "0 < length (processed_reviews a)" by simp
  from loop_topic_sum [OF a] assms(1) have "topic_counts a \<noteq> []"
    by (auto simp: init_agg_def)
  moreover from loop_sentiment_sum [OF a] assms(1) have "sentiment_counts a \<noteq> []"
    by (auto simp: init_agg_def)
  ultimately obtain smry where
    smry: "generate_smart_summary (topic_counts a) (sentiment_counts a) (length (processed_reviews a))
            = Inr smry"
    using generate_smart_summary_total [OF _ _ pos] by blast
  show ?thesis
    by (simp add: assemble_def a Let_def smry topic_percentages_eq [OF pos])
qed

subsection \<open>The result of an analysis\<close>

lemma inference_Some:
  assumes "inference df clf asin s = (Inr (Some res), s')"
  obtains meta others results where
    "product_reviews df asin = meta # others"
    and "clf (calls s) (map (\<lambda>r. clean_text (review_text r)) (target_reviews (meta # others))) LABELS
           = Inr results"
    and "assemble (meta # others) meta (target_reviews (meta # others))
           (map (\<lambda>r. clean_text (review_text r)) (target_reviews (meta # others))) results = Inr res"
    and "s' = s\<lparr>calls := Suc (calls s)\<rparr>"
  using assms
  by (auto simp: inference_def Let_def split: list.splits sum.splits)

lemma target_reviews_length: "length (target_reviews rows) = min (length rows) 50"
  by (simp add: target_reviews_def sort_values_def MAX_REVIEWS_TO_ANALYZE_def)

lemma assemble_counts:
  assumes "assemble rows meta target raw_texts results = Inr res"
  shows "analyzed_count res = length target" and "length (reviews res) = length target"
    and "sum_list (map snd (sentiment_breakdown res)) = length target"
    and "total_reviews_local res = length rows"
proof -
  from assms obtain a where
    a: "loop results raw_texts 0 target init_agg = Inr a"
    and ac: "analyzed_count res = length (processed_reviews a)"
    and rv: "reviews res = processed_reviews a"
    and sb: "sentiment_breakdown res = sentiment_counts a"
    and tl: "total_reviews_local res = length rows"
    by (elim assemble_Inr)
  from loop_length [OF a] have len: "length (processed_reviews a) = length target"
    by (simp add: init_agg_def)
  show "analyzed_count res = length target" by (simp add: ac len)
  show "length (reviews res) = length target" by (simp add: rv len)
  show "sum_list (map snd (sentiment_breakdown res)) = length target"
    using loop_sentiment_sum [OF a] by (simp add: sb init_agg_def)
  show "total_reviews_local res = length rows" by (rule tl)
qed

lemma assemble_top_topics:
  assumes "assemble rows meta target raw_texts results = Inr res" and "target \<noteq> []"
  obtains tc where
    "top_topics res = map (\<lambda>kv. (fst kv, fl53 (of_nat (snd kv) / of_nat (length target)))) tc"
    and "sum_list (map snd tc) = length target"
    and "\<forall>p \<in> set tc. 0 < snd p"
    and "distinct (map fst tc)"
    and "set (map fst tc) = rd_topic ` set (reviews res)"
    and "\<forall>r \<in> set (reviews res). \<exists>x \<in> set results. rd_topic r \<in> set (labels x)"
proof -
  from assms(1) obtain a where
    a: "loop results raw_texts 0 target init_agg = Inr a"
    and tp: "topic_percentages (topic_counts a) (length (processed_reviews a)) = Inr (top_topics res)"
    and rv: "reviews res = processed_reviews a"
    by (elim assemble_Inr)
  from loop_length [OF a] have len: "length (processed_reviews a) = length target"
    by (simp add: init_agg_def)
  with assms(2) have pos: "0 < length (processed_reviews a)" by simp
  from loop_new_reviews [OF a] obtain new where
    n1: "processed_reviews a = new"
    and n3: "set (map fst (topic_counts a)) = rd_topic ` set new"
    and n4: "\<forall>r \<in> set new. \<exists>x \<in> set results. rd_topic r \<in> set (labels x)"
    by (auto simp: init_agg_def)
  show ?thesis
  proof (rule that [of "topic_counts a"])
    show "top_topics res =
        map (\<lambda>kv. (fst kv, fl53 (of_nat (snd kv) / of_nat (length target)))) (topic_counts a)"
      using tp topic_percentages_eq [OF pos, of "topic_counts a"] by (simp add: len)
    show "sum_list (map snd (topic_counts a)) = length target"
      using loop_topic_sum [OF a] by (simp add: init_agg_def)
    show "\<forall>p \<in> set (topic_counts a). 0 < snd p"
      using loop_topic_positive [OF a] by (simp add: init_agg_def)
    show "distinct (map fst (topic_counts a))"
      using loop_topic_distinct [OF a] by (simp add: init_agg_def)
    show "set (map fst (topic_counts a)) = rd_topic ` set (reviews res)"
      using n3 by (simp add: rv n1)
    show "\<forall>r \<in> set (reviews res). \<exists>x \<in> set results. rd_topic r \<in> set (labels x)"
      using n4 by (simp add: rv n1)
  qed
qed

lemma sum_fl53_error:
  "\<bar>sum_list (map (\<lambda>v. fl53 (of_nat v / of_nat n)) vs) - of_nat (sum_list vs) / of_nat n\<bar>
     \<le> (of_nat (sum_list vs) / of_nat n) / 2 ^ 53"
proof (induction vs)
  case Nil
  show ?case by simp
next
  case (Cons v vs)
  define x :: rat where "x = of_nat v / of_nat n"
  define S where "S = sum_list (map (\<lambda>v. fl53 (of_nat v / of_nat n)) vs)"
  define T :: rat where "T = of_nat (sum_list vs) / of_nat n"
  have x0: "0 \<le> x" by (simp add: x_def)
  have e1: "\<bar>fl53 x - x\<bar> \<le> x / 2 ^ 53"
    using x0 by (rule fl53_error)
  have e2: "\<bar>S - T\<bar> \<le> T / 2 ^ 53"
    using Cons.IH by (simp add: S_def T_def)
  have "\<bar>(fl53 x + S) - (x + T)\<bar> \<le> \<bar>fl53 x - x\<bar> + \<bar>S - T\<bar>"
    by linarith
  also have "\<dots> \<le> x / 2 ^ 53 + T / 2 ^ 53"
    using e1 e2 by linarith
  also have "\<dots> = (x + T) / 2 ^ 53"
    by (simp add: add_divide_distrib)
  finally have "\<bar>(fl53 x + S) - (x + T)\<bar> \<le> (x + T) / 2 ^ 53" .
  moreover have "of_nat (sum_list (v # vs)) / of_nat n = x + T"
    by (simp add: x_def T_def add_divide_distrib)
  ultimately show ?case
    by (simp add: x_def [symmetric] S_def [symmetric])
qed


lemma inference_tally:
  assumes "inference df clf asin s = (Inr (Some res), s')"
  shows "sentiment_breakdown res =
       [(''Positive'', length (filter (\<lambda>r. 4 \<le> rating r) (target_reviews (product_reviews df asin)))),
        (''Negative'', length (filter (\<lambda>r. rating r \<le> 2) (target_reviews (product_reviews df asin)))),
        (''Neutral'', length (filter (\<lambda>r. rating r = 3) (target_reviews (product_reviews df asin))))]"
    and "map rd_rating (reviews res) = map rating (target_reviews (product_reviews df asin))"
proof -
  from assms obtain meta others results where
    pr: "product_reviews df asin = meta # others"
    and asm: "assemble (meta # others) meta (target_reviews (meta # others))
           (map (\<lambda>r. clean_text (review_text r)) (target_reviews (meta # others))) results = Inr res"
    by (elim inference_Some)
  from asm obtain a where
    a: "loop results (map (\<lambda>r. clean_text (review_text r)) (target_reviews (meta # others))) 0
          (target_reviews (meta # others)) init_agg = Inr a"
    and rv: "reviews res = processed_reviews a"
    and sb: "sentiment_breakdown res = sentiment_counts a"
    by (elim assemble_Inr)
  have "sentiment_counts init_agg = [(''Positive'', 0), (''Negative'', 0), (''Neutral'', 0)]"
    by (simp add: init_agg_def)
  from loop_sentiment_tally [OF a this]
  show "sentiment_breakdown res =
       [(''Positive'', length (filter (\<lambda>r. 4 \<le> rating r) (target_reviews (product_reviews df asin)))),
        (''Negative'', length (filter (\<lambda>r. rating r \<le> 2) (target_reviews (product_reviews df asin)))),
        (''Neutral'', length (filter (\<lambda>r. rating r = 3) (target_reviews (product_reviews df asin))))]"
    by (simp add: sb pr)
  from loop_new_reviews [OF a]
  show "map rd_rating (reviews res) = map rating (target_reviews (product_reviews df asin))"
    by (auto simp: rv pr init_agg_def)
qed

text \<open>
  Claim C5. In every analysis that \<^verbatim>\<open>cached_inference\<close> returns, the sentiment histogram is
  a function of the ratings of the selected reviews alone: \<open>Positive\<close> counts the ratings
  of 4 and more, \<open>Negative\<close> the ratings of 2 and less, \<open>Neutral\<close> the ratings equal to 3,
  which are exactly the remaining ones. The annotated reviews carry those ratings in the
  same order, and any other classifier that lets the analysis of the same product succeed
  gives the same histogram.
\<close>

theorem sentiment_from_rating_only:
  assumes "inference df clf asin s = (Inr (Some res), s')"
  shows "sentiment_breakdown res =
       [(''Positive'', length (filter (\<lambda>r. 4 \<le> rating r) (target_reviews (product_reviews df asin)))),
        (''Negative'', length (filter (\<lambda>r. rating r \<le> 2) (target_reviews (product_reviews df asin)))),
        (''Neutral'', length (filter (\<lambda>r. rating r = 3) (target_reviews (product_reviews df asin))))]
     \<and> map rd_rating (reviews res) = map rating (target_reviews (product_reviews df asin))
     \<and> (\<forall>r. sentiment_bucket r =
            (if 4 \<le> r then ''Positive'' else if r \<le> 2 then ''Negative'' else ''Neutral'')
          \<and> (sentiment_bucket r = ''Neutral'' \<longleftrightarrow> r = 3))
     \<and> (\<forall>clf2 s2 res2 s2'. inference df clf2 asin s2 = (Inr (Some res2), s2') \<longrightarrow>
            sentiment_breakdown res2 = sentiment_breakdown res)"
proof (intro conjI allI impI)
  show "sentiment_breakdown res =
       [(''Positive'', length (filter (\<lambda>r. 4 \<le> rating r) (target_reviews (product_reviews df asin)))),
        (''Negative'', length (filter (\<lambda>r. rating r \<le> 2) (target_reviews (product_reviews df asin)))),
        (''Neutral'', length (filter (\<lambda>r. rating r = 3) (target_reviews (product_reviews df asin))))]"
    using assms by (rule inference_tally(1))
  show "map rd_rating (reviews res) = map rating (target_reviews (product_reviews df asin))"
    using assms by (rule inference_tally(2))
next
  fix r :: int
  show "sentiment_bucket r =
      (if 4 \<le> r then ''Positive'' else if r \<le> 2 then ''Negative'' else ''Neutral'')"
    by (simp add: sentiment_bucket_def)
  show "(sentiment_bucket r = ''Neutral'') = (r = 3)"
    by (auto simp: sentiment_bucket_def)
next
  fix clf2 s2 res2 s2'
  assume "inference df clf2 asin s2 = (Inr (Some res2), s2')"
  from inference_tally(1) [OF this] inference_tally(1) [OF assms]
  show "sentiment_breakdown res2 = sentiment_breakdown res" by simp
qed

lemma sample_inference:
  "inference sample_df clf_stub ''B00YQ6X8EO'' empty_server =
     (Inr (Some sample_result), \<lparr>cache = [], calls = 1\<rparr>)"
  by code_simp

text \<open>
  The theorem at the sample store: one review of rating 5 and one of rating 1.
\<close>

theorem sentiment_from_rating_only_witness:
  "inference sample_df clf_stub ''B00YQ6X8EO'' empty_server =
     (Inr (Some sample_result), \<lparr>cache = [], calls = 1\<rparr>)
   \<and> sentiment_breakdown sample_result =
       [(''Positive'', length (filter (\<lambda>r. 4 \<le> rating r)
            (target_reviews (product_reviews sample_df ''B00YQ6X8EO'')))),
        (''Negative'', length (filter (\<lambda>r. rating r \<le> 2)
            (target_reviews (product_reviews sample_df ''B00YQ6X8EO'')))),
        (''Neutral'', length (filter (\<lambda>r. rating r = 3)
            (target_reviews (product_reviews sample_df ''B00YQ6X8EO''))))]"
proof -
  note th = sentiment_from_rating_only [OF sample_inference]
  show ?thesis
    using sample_inference th [THEN conjunct1] by (intro conjI)
qed

text \<open>
  Claim C6. In every analysis that \<^verbatim>\<open>cached_inference\<close> returns, the sentiment counts sum
  to \<open>analyzed_count\<close>, which is the length of the list of annotated reviews and is
  positive; each value of \<open>top_topics\<close> lies between 0 and 1; and the values, each one the
  float nearest to its exact quotient, sum to 1 up to \<open>1 / 2 ^ 53\<close>, which is within the
  tolerance \<open>1 / 10 ^ 9\<close>. The sum is the exact sum of the stored floats.
\<close>

theorem analysis_invariants:
  assumes "inference df clf asin s = (Inr (Some res), s')"
  shows "sum_list (map snd (sentiment_breakdown res)) = analyzed_count res
     \<and> analyzed_count res = length (reviews res)
     \<and> 0 < analyzed_count res
     \<and> \<bar>sum_list (map snd (top_topics res)) - 1\<bar> \<le> 1 / 2 ^ 53
     \<and> \<bar>sum_list (map snd (top_topics res)) - 1\<bar> \<le> 1 / 10 ^ 9
     \<and> (\<forall>p \<in> set (top_topics res). 0 \<le> snd p \<and> snd p \<le> 1)"
proof -
  from assms obtain meta others results where
    asm: "assemble (meta # others) meta (target_reviews (meta # others))
           (map (\<lambda>r. clean_text (review_text r)) (target_reviews (meta # others))) results = Inr res"
    by (elim inference_Some)
  define target where "target = target_reviews (meta # others)"
  have tne: "target \<noteq> []"
    using target_reviews_length [of "meta # others"] by (auto simp: target_def)
  note cnt = assemble_counts [OF asm, folded target_def]
  obtain tc where
    tt: "top_topics res = map (\<lambda>kv. (fst kv, fl53 (of_nat (snd kv) / of_nat (length target)))) tc"
    and sm: "sum_list (map snd tc) = length target"
    and "\<forall>p \<in> set tc. 0 < snd p"
    and "distinct (map fst tc)"
    and "set (map fst tc) = rd_topic ` set (reviews res)"
    and "\<forall>r \<in> set (reviews res). \<exists>x \<in> set results. rd_topic r \<in> set (labels x)"
    by (rule assemble_top_topics [OF asm, folded target_def, OF tne])
  have npos: "0 < length target" using tne by simp
  have vals: "map snd (top_topics res) =
      map (\<lambda>v. fl53 (of_nat v / of_nat (length target))) (map snd tc)"
    by (simp add: tt comp_def)
  have "\<bar>sum_list (map snd (top_topics res)) - of_nat (sum_list (map snd tc)) / of_nat (length target)\<bar>
      \<le> (of_nat (sum_list (map snd tc)) / of_nat (length target)) / 2 ^ 53"
    unfolding vals by (rule sum_fl53_error)
  then have err: "\<bar>sum_list (map snd (top_topics res)) - 1\<bar> \<le> 1 / 2 ^ 53"
    using npos by (simp add: sm)
  have "(1::rat) / 2 ^ 53 \<le> 1 / 10 ^ 9" by simp
  with err have err9: "\<bar>sum_list (map snd (top_topics res)) - 1\<bar> \<le> 1 / 10 ^ 9"
    by (rule order_trans)
  have rng: "\<forall>p \<in> set (top_topics res). 0 \<le> snd p \<and> snd p \<le> 1"
  proof
    fix p assume "p \<in> set (top_topics res)"
    then obtain kv where kv: "kv \<in> set tc"
      and p: "p = (fst kv, fl53 (of_nat (snd kv) / of_nat (length target)))"
      by (auto simp: tt)
    from kv have "snd kv \<in> set (map snd tc)" by simp
    then have "snd kv \<le> sum_list (map snd tc)" by (intro member_le_sum_list) auto
    then have "snd kv \<le> length target" by (simp add: sm)
    then have "(of_nat (snd kv) :: rat) / of_nat (length target) \<le> 1"
      using npos by simp
    then have "fl53 (of_nat (snd kv) / of_nat (length target)) \<le> 1"
      by (rule fl53_le_one)
    then show "0 \<le> snd p \<and> snd p \<le> 1"
      by (simp add: p fl53_nonneg)
  qed
  show ?thesis
    using cnt npos err err9 rng by simp
qed

text \<open>
  The theorem at the sample store.
\<close>

theorem analysis_invariants_witness:
  "inference sample_df clf_stub ''B00YQ6X8EO'' empty_server =
     (Inr (Some sample_result), \<lparr>cache = [], calls = 1\<rparr>)
   \<and> sum_list (map snd (sentiment_breakdown sample_result)) = analyzed_count sample_result
   \<and> analyzed_count sample_result = length (reviews sample_result)
   \<and> \<bar>sum_list (map snd (top_topics sample_result)) - 1\<bar> \<le> 1 / 10 ^ 9"
proof -
  note th = analysis_invariants [OF sample_inference]
  show ?thesis
    using sample_inference th [THEN conjunct1] th [THEN conjunct2, THEN conjunct1]
      th [THEN conjunct2, THEN conjunct2, THEN conjunct2, THEN conjunct2, THEN conjunct1]
    by (intro conjI)
qed

text \<open>
  Claim C10. In every analysis that \<^verbatim>\<open>cached_inference\<close> returns, the keys of
  \<open>top_topics\<close> are exactly the best topics of the annotated reviews, so a label that is
  nowhere the best topic has no entry; no key occurs twice; and every stored fraction is
  strictly positive. When the classifier answers with labels out of the candidate labels
  it was given, as its contract says, every key is one of the six \<open>LABELS\<close>.
\<close>

theorem top_topics_keys:
  assumes run: "inference df clf asin s = (Inr (Some res), s')"
    and contract: "\<forall>texts results. clf (calls s) texts LABELS = Inr results \<longrightarrow>
                     (\<forall>x \<in> set results. set (labels x) \<subseteq> set LABELS)"
  shows "set (map fst (top_topics res)) = rd_topic ` set (reviews res)
     \<and> set (map fst (top_topics res)) \<subseteq> set LABELS
     \<and> distinct (map fst (top_topics res))
     \<and> (\<forall>p \<in> set (top_topics res). 0 < snd p)"
proof -
  from run obtain meta others results where
    clf: "clf (calls s) (map (\<lambda>r. clean_text (review_text r)) (target_reviews (meta # others))) LABELS
           = Inr results"
    and asm: "assemble (meta # others) meta (target_reviews (meta # others))
           (map (\<lambda>r. clean_text (review_text r)) (target_reviews (meta # others))) results = Inr res"
    by (elim inference_Some)
  define target where "target = target_reviews (meta # others)"
  have tne: "target \<noteq> []"
    using target_reviews_length [of "meta # others"] by (auto simp: target_def)
  obtain tc where
    tt: "top_topics res = map (\<lambda>kv. (fst kv, fl53 (of_nat (snd kv) / of_nat (length target)))) tc"
    and "sum_list (map snd tc) = length target"
    and ps: "\<forall>p \<in> set tc. 0 < snd p"
    and ds: "distinct (map fst tc)"
    and ks: "set (map fst tc) = rd_topic ` set (reviews res)"
    and ls: "\<forall>r \<in> set (reviews res). \<exists>x \<in> set results. rd_topic r \<in> set (labels x)"
    by (rule assemble_top_topics [OF asm, folded target_def, OF tne])
  have npos: "0 < length target" using tne by simp
  have keys: "map fst (top_topics res) = map fst tc"
    by (simp add: tt comp_def)
  from contract clf have "\<forall>x \<in> set results. set (labels x) \<subseteq> set LABELS"
    by blast
  with ls have sub: "rd_topic ` set (reviews res) \<subseteq> set LABELS"
    by blast
  have pos: "\<forall>p \<in> set (top_topics res). 0 < snd p"
  proof
    fix p assume "p \<in> set (top_topics res)"
    then obtain kv where kv: "kv \<in> set tc"
      and p: "p = (fst kv, fl53 (of_nat (snd kv) / of_nat (length target)))"
      by (auto simp: tt)
    from kv ps have "0 < snd kv" by blast
    then have "(0::rat) < of_nat (snd kv) / of_nat (length target)"
      using npos by simp
    then show "0 < snd p"
      unfolding p snd_conv by (rule fl53_pos)
  qed
  show ?thesis
    unfolding keys using ks sub ds pos by simp
qed

lemma clf_stub_contract:
  "\<forall>texts results. clf_stub (calls empty_server) texts LABELS = Inr results \<longrightarrow>
     (\<forall>x \<in> set results. set (labels x) \<subseteq> set LABELS)"
  by (simp add: clf_stub_def stub_results_def LABELS_def)

text \<open>
  The theorem at the sample store, whose classifier keeps to the candidate labels.
\<close>

theorem top_topics_keys_witness:
  "inference sample_df clf_stub ''B00YQ6X8EO'' empty_server =
     (Inr (Some sample_result), \<lparr>cache = [], calls = 1\<rparr>)
   \<and> set (map fst (top_topics sample_result)) = rd_topic ` set (reviews sample_result)
   \<and> set (map fst (top_topics sample_result)) \<subseteq> set LABELS
   \<and> distinct (map fst (top_topics sample_result))"
proof -
  note th = top_topics_keys [OF sample_inference clf_stub_contract]
  show ?thesis
    using sample_inference th [THEN conjunct1]
      th [THEN conjunct2, THEN conjunct1]
      th [THEN conjunct2, THEN conjunct2, THEN conjunct1]
    by (intro conjI)
qed

subsection \<open>The selected reviews\<close>

lemma sorted_lex:
  "sorted (map f ys) \<Longrightarrow> (\<And>k. sorted (map g (filter (\<lambda>y. f y = k) ys))) \<Longrightarrow>
   sorted (map (\<lambda>y. (f y, g y)) ys)"
proof (induction ys)
  case Nil
  show ?case by simp
next
  case (Cons y ys)
  have sf: "sorted (map f ys)" and le: "\<forall>z \<in> set ys. f y \<le> f z"
    using Cons.prems(1) by simp_all
  have sg: "sorted (map g (filter (\<lambda>y. f y = k) ys))" for k
    using Cons.prems(2) [of k] by (cases "f y = k") simp_all
  have tail: "sorted (map (\<lambda>y. (f y, g y)) ys)"
    using sf sg by (rule Cons.IH)
  have head: "(f y, g y) \<le> (f z, g z)" if z: "z \<in> set ys" for z
  proof (cases "f y = f z")
    case True
    from Cons.prems(2) [of "f y"] have "\<forall>w \<in> set (filter (\<lambda>v. f v = f y) ys). g y \<le> g w"
      by simp
    with z True have "g y \<le> g z" by simp
    with True show ?thesis by (simp add: less_eq_prod_def)
  next
    case False
    with le z have "f y < f z" by (simp add: order_less_le)
    then show ?thesis by (simp add: less_eq_prod_def)
  qed
  show ?case
    using tail head by simp
qed

lemma sort_key_twice:
  "sort_key f (sort_key g xs) = sort_key (\<lambda>x. (f x, g x)) xs"
proof (rule properties_for_sort_key [symmetric])
  show "mset (sort_key f (sort_key g xs)) = mset xs"
    by simp
next
  fix k
  have "filter (\<lambda>x. (f k, g k) = (f x, g x)) (sort_key f (sort_key g xs))
      = filter (\<lambda>x. g x = g k) (filter (\<lambda>x. f x = f k) (sort_key f (sort_key g xs)))"
    by (auto intro: filter_cong)
  also have "\<dots> = filter (\<lambda>x. g x = g k) (filter (\<lambda>x. f x = f k) (sort_key g xs))"
    by (simp only: sort_key_stable)
  also have "\<dots> = filter (\<lambda>x. f x = f k) (filter (\<lambda>x. g x = g k) (sort_key g xs))"
    by (auto intro: filter_cong)
  also have "\<dots> = filter (\<lambda>x. f x = f k) (filter (\<lambda>x. g x = g k) xs)"
    by (simp only: sort_key_stable)
  also have "\<dots> = filter (\<lambda>x. (f k, g k) = (f x, g x)) xs"
    by (auto intro: filter_cong)
  finally show "filter (\<lambda>x. (f k, g k) = (f x, g x)) (sort_key f (sort_key g xs))
      = filter (\<lambda>x. (f k, g k) = (f x, g x)) xs" .
next
  show "sorted (map (\<lambda>x. (f x, g x)) (sort_key f (sort_key g xs)))"
  proof (rule sorted_lex)
    show "sorted (map f (sort_key f (sort_key g xs)))"
      by (rule sorted_sort_key)
    fix k
    have "filter (\<lambda>y. f y = k) (sort_key f (sort_key g xs)) = sort_key g (filter (\<lambda>y. f y = k) xs)"
      by (simp only: sort_key_stable filter_sort)
    then show "sorted (map g (filter (\<lambda>y. f y = k) (sort_key f (sort_key g xs))))"
      by (simp only: sorted_sort_key)
  qed
qed

lemma loop_texts:
  "loop results raw_texts i rows a = Inr a' \<Longrightarrow>
   map rd_text (processed_reviews a') =
     map rd_text (processed_reviews a) @ take (length rows) (drop i raw_texts)"
proof (induction rows arbitrary: i a)
  case Nil
  then show ?case by simp
next
  case (Cons row rows)
  from Cons.prems obtain b where
    step: "loop_body results raw_texts i row a = Inr b"
    and rest: "loop results raw_texts (Suc i) rows b = Inr a'"
    by (auto split: sum.splits)
  from step have i: "i < length raw_texts"
    and b: "map rd_text (processed_reviews b) = map rd_text (processed_reviews a) @ [raw_texts ! i]"
    by (elim loop_body_Inr; simp)+
  have "take (length (row # rows)) (drop i raw_texts)
      = raw_texts ! i # take (length rows) (drop (Suc i) raw_texts)"
    using i by (simp add: Cons_nth_drop_Suc [symmetric])
  with Cons.IH [OF rest] b show ?case by simp
qed


lemma sort_values_lex:
  "sort_values rows = sort_key (\<lambda>r. (- helpful_vote r, - timestamp r)) rows"
  unfolding sort_values_def by (rule sort_key_twice)

lemma sort_values_descending:
  "sorted_wrt (\<lambda>a b. helpful_vote b < helpful_vote a
                  \<or> (helpful_vote b = helpful_vote a \<and> timestamp b \<le> timestamp a))
     (sort_values rows)"
proof -
  have "sorted (map (\<lambda>r. (- helpful_vote r, - timestamp r)) (sort_values rows))"
    unfolding sort_values_lex by (rule sorted_sort_key)
  then have "sorted_wrt (\<lambda>a b. (- helpful_vote a, - timestamp a) \<le> (- helpful_vote b, - timestamp b))
      (sort_values rows)"
    by (simp only: sorted_map)
  then show ?thesis
    by (rule sorted_wrt_mono_rel [rotated]) (auto simp: less_eq_prod_def)
qed

lemma sort_values_stable:
  "filter (\<lambda>r. helpful_vote r = h \<and> timestamp r = t) (sort_values rows)
     = filter (\<lambda>r. helpful_vote r = h \<and> timestamp r = t) rows"
proof -
  have "filter (\<lambda>r. helpful_vote r = h \<and> timestamp r = t) xs
      = filter (\<lambda>r. (- helpful_vote r, - timestamp r) = (- h, - t)) xs" for xs :: "review_row list"
    by (auto intro: filter_cong)
  then show ?thesis
    by (simp only: sort_values_lex sort_key_stable)
qed

lemma inference_selected:
  assumes "inference df clf asin s = (Inr (Some res), s')"
  shows "total_reviews_local res = length (product_reviews df asin)"
    and "analyzed_count res = min (total_reviews_local res) 50"
    and "map rd_text (reviews res) =
           map (\<lambda>r. clean_text (review_text r)) (target_reviews (product_reviews df asin))"
proof -
  from assms obtain meta others results where
    pr: "product_reviews df asin = meta # others"
    and asm: "assemble (meta # others) meta (target_reviews (meta # others))
           (map (\<lambda>r. clean_text (review_text r)) (target_reviews (meta # others))) results = Inr res"
    by (elim inference_Some)
  note cnt = assemble_counts [OF asm]
  show tl: "total_reviews_local res = length (product_reviews df asin)"
    by (simp add: cnt(4) pr)
  show "analyzed_count res = min (total_reviews_local res) 50"
    by (simp add: cnt(1) tl target_reviews_length pr)
  from asm obtain a where
    a: "loop results (map (\<lambda>r. clean_text (review_text r)) (target_reviews (meta # others))) 0
          (target_reviews (meta # others)) init_agg = Inr a"
    and rv: "reviews res = processed_reviews a"
    by (elim assemble_Inr)
  from loop_texts [OF a]
  show "map rd_text (reviews res) =
           map (\<lambda>r. clean_text (review_text r)) (target_reviews (product_reviews df asin))"
    by (simp add: rv pr init_agg_def)
qed

text \<open>
  Claim C4. The two stable passes of \<open>sort_values\<close> are the stable sort on the pair of keys
  (\<open>helpful_vote\<close> descending, then \<open>timestamp\<close> descending): the result is a permutation
  of the rows, ordered by that pair, and rows with equal keys keep the order of the frame.
  \<open>target_reviews\<close> is its first \<open>min n 50\<close> elements. Every analysis that
  \<^verbatim>\<open>cached_inference\<close> returns has \<open>analyzed_count = min total_reviews_local 50\<close>, and its
  annotated reviews are the selected rows in their order (cleaned text and rating). Being
  functions of the rows, selection and order are the same at every repetition.
\<close>

theorem selector_stable_top_50:
  "sort_values rows = sort_key (\<lambda>r. (- helpful_vote r, - timestamp r)) rows
   \<and> mset (sort_values rows) = mset rows
   \<and> sorted_wrt (\<lambda>a b. helpful_vote b < helpful_vote a
                    \<or> (helpful_vote b = helpful_vote a \<and> timestamp b \<le> timestamp a))
        (sort_values rows)
   \<and> (\<forall>h t. filter (\<lambda>r. helpful_vote r = h \<and> timestamp r = t) (sort_values rows)
             = filter (\<lambda>r. helpful_vote r = h \<and> timestamp r = t) rows)
   \<and> target_reviews rows = take (min (length rows) 50) (sort_values rows)
   \<and> length (target_reviews rows) = min (length rows) 50
   \<and> (\<forall>df clf asin s res s'. inference df clf asin s = (Inr (Some res), s') \<longrightarrow>
         total_reviews_local res = length (product_reviews df asin)
         \<and> analyzed_count res = min (total_reviews_local res) 50
         \<and> map rd_text (reviews res) =
             map (\<lambda>r. clean_text (review_text r)) (target_reviews (product_reviews df asin))
         \<and> map rd_rating (reviews res) = map rating (target_reviews (product_reviews df asin)))"
proof (intro conjI allI impI)
  show "sort_values rows = sort_key (\<lambda>r. (- helpful_vote r, - timestamp r)) rows"
    by (rule sort_values_lex)
  show "mset (sort_values rows) = mset rows"
    by (simp add: sort_values_def)
  show "sorted_wrt (\<lambda>a b. helpful_vote b < helpful_vote a
                    \<or> (helpful_vote b = helpful_vote a \<and> timestamp b \<le> timestamp a))
        (sort_values rows)"
    by (rule sort_values_descending)
  show "target_reviews rows = take (min (length rows) 50) (sort_values rows)"
    by (simp add: target_reviews_def MAX_REVIEWS_TO_ANALYZE_def sort_values_def min_def)
  show "length (target_reviews rows) = min (length rows) 50"
    by (rule target_reviews_length)
next
  fix h t
  show "filter (\<lambda>r. helpful_vote r = h \<and> timestamp r = t) (sort_values rows)
             = filter (\<lambda>r. helpful_vote r = h \<and> timestamp r = t) rows"
    by (rule sort_values_stable)
next
  fix df clf asin s res s'
  assume run: "inference df clf asin s = (Inr (Some res), s')"
  show "total_reviews_local res = length (product_reviews df asin)"
    using run by (rule inference_selected(1))
  show "analyzed_count res = min (total_reviews_local res) 50"
    using run by (rule inference_selected(2))
  show "map rd_text (reviews res) =
             map (\<lambda>r. clean_text (review_text r)) (target_reviews (product_reviews df asin))"
    using run by (rule inference_selected(3))
  show "map rd_rating (reviews res) = map rating (target_reviews (product_reviews df asin))"
    using run by (rule inference_tally(2))
qed

text \<open>
  The theorem at the reviews of \<open>B00YQ6X8EO\<close> in the sample store.
\<close>

theorem selector_stable_top_50_witness:
  "inference sample_df clf_stub ''B00YQ6X8EO'' empty_server =
     (Inr (Some sample_result), \<lparr>cache = [], calls = 1\<rparr>)
   \<and> total_reviews_local sample_result = length (product_reviews sample_df ''B00YQ6X8EO'')
   \<and> analyzed_count sample_result = min (total_reviews_local sample_result) 50
   \<and> target_reviews (product_reviews sample_df ''B00YQ6X8EO'')
        = take (min (length (product_reviews sample_df ''B00YQ6X8EO'')) 50)
            (sort_values (product_reviews sample_df ''B00YQ6X8EO''))"
proof -
  note th = selector_stable_top_50 [of "product_reviews sample_df ''B00YQ6X8EO''"]
  note sel = th [THEN conjunct2, THEN conjunct2, THEN conjunct2, THEN conjunct2, THEN conjunct1]
  note run = th [THEN conjunct2, THEN conjunct2, THEN conjunct2, THEN conjunct2, THEN conjunct2,
                 THEN conjunct2, rule_format, OF sample_inference]
  show ?thesis
    using sample_inference run [THEN conjunct1] run [THEN conjunct2, THEN conjunct1] sel
    by (intro conjI)
qed

subsection \<open>The summary\<close>

lemma py_max_keys_split:
  assumes "py_max (map_of d) (map fst d) = Inr k"
  shows "\<exists>pre post. map fst d = pre @ k # post
     \<and> (\<forall>x \<in> set pre. map_of d x < map_of d k) \<and> (\<forall>x \<in> set post. map_of d x \<le> map_of d k)"
  using assms by (rule py_max_split)

text \<open>
  Claim C8, as the code has it. \<open>generate_smart_summary\<close> is a function of its three
  arguments, so equal inputs give equal strings. For non-empty \<open>topic_counts\<close>, non-empty
  \<open>sentiment_counts\<close> and a positive number of analyzed reviews it returns the three
  sentences of the template: the first names the number of reviews and the top sentiment,
  the second the top topic and its percentage, the third is chosen by the top sentiment out
  of three fixed sentences. The top topic and the top sentiment are the first keys, in the
  order of the dictionary, with the greatest count. The percentage is the float
  \<^verbatim>\<open>(topic_counts[top_topic] / total_analyzed) * 100\<close>, two rounded float operations, printed
  with \<^verbatim>\<open>.0f\<close>, that is rounded to the nearest integer, ties to even; it is not always
  the rounded exact quotient.
\<close>

theorem summary_template:
  assumes "tc \<noteq> []" and "sc \<noteq> []" and "0 < n"
  shows "\<exists>top_topic c top_sentiment.
      generate_smart_summary tc sc n =
        Inr (''Based on an analysis of '' @ digits n
             @ '' reviews, the customer sentiment is predominantly **'' @ top_sentiment @ ''**. ''
             @ ''The primary driver of conversation is **'' @ top_topic
             @ ''**, which appears in **''
             @ digits (nat (round_half_even (fl53 (fl53 (of_nat c / of_nat n) * 100))))
             @ ''%** of the feedback. ''
             @ (if top_sentiment = ''Negative''
                  then ''This suggests users are facing critical issues in this specific area.''
                else if top_sentiment = ''Positive''
                  then ''This indicates high user satisfaction regarding this feature.''
                else ''Opinions on this product appear to be mixed.''))
    \<and> map_of tc top_topic = Some c
    \<and> (\<exists>pre post. map fst tc = pre @ top_topic # post
          \<and> (\<forall>k \<in> set pre. map_of tc k < Some c) \<and> (\<forall>k \<in> set post. map_of tc k \<le> Some c))
    \<and> (\<exists>pre post. map fst sc = pre @ top_sentiment # post
          \<and> (\<forall>k \<in> set pre. map_of sc k < map_of sc top_sentiment)
          \<and> (\<forall>k \<in> set post. map_of sc k \<le> map_of sc top_sentiment))"
proof -
  from assms(1) have "map fst tc \<noteq> []" by simp
  from py_max_total [OF this] obtain top_topic where
    t: "py_max (map_of tc) (map fst tc) = Inr top_topic" by blast
  from dict_item_key [OF py_max_member [OF t]] obtain c where
    c: "dict_item tc top_topic = Inr c" and mc: "map_of tc top_topic = Some c" by blast
  from assms(2) have "map fst sc \<noteq> []" by simp
  from py_max_total [OF this] obtain top_sentiment where
    s: "py_max (map_of sc) (map fst sc) = Inr top_sentiment" by blast
  have val: "generate_smart_summary tc sc n =
      Inr (summary_text n top_sentiment top_topic (fl53 (fl53 (of_nat c / of_nat n) * 100)))"
    using assms(3) by (simp add: generate_smart_summary_def t c s truediv_def)
  have tmpl: "summary_text n top_sentiment top_topic (fl53 (fl53 (of_nat c / of_nat n) * 100)) =
        ''Based on an analysis of '' @ digits n
             @ '' reviews, the customer sentiment is predominantly **'' @ top_sentiment @ ''**. ''
             @ ''The primary driver of conversation is **'' @ top_topic
             @ ''**, which appears in **''
             @ digits (nat (round_half_even (fl53 (fl53 (of_nat c / of_nat n) * 100))))
             @ ''%** of the feedback. ''
             @ (if top_sentiment = ''Negative''
                  then ''This suggests users are facing critical issues in this specific area.''
                else if top_sentiment = ''Positive''
                  then ''This indicates high user satisfaction regarding this feature.''
                else ''Opinions on this product appear to be mixed.'')"
    unfolding summary_text_def context_sentence_def format_0f_def by (rule refl)
  note st = py_max_keys_split [OF t, unfolded mc]
  note ss = py_max_keys_split [OF s]
  show ?thesis
    using val [unfolded tmpl] mc st ss by blast
qed


text \<open>
  The theorem at 23 reviews on \<open>Service\<close> out of 40.
\<close>

theorem summary_template_witness:
  "topics_23_of_40 \<noteq> [] \<and> sentiments_40 \<noteq> [] \<and> (0::nat) < 40
   \<and> (\<exists>top_topic c top_sentiment.
      generate_smart_summary topics_23_of_40 sentiments_40 40 =
        Inr (''Based on an analysis of '' @ digits 40
             @ '' reviews, the customer sentiment is predominantly **'' @ top_sentiment @ ''**. ''
             @ ''The primary driver of conversation is **'' @ top_topic
             @ ''**, which appears in **''
             @ digits (nat (round_half_even (fl53 (fl53 (of_nat c / of_nat 40) * 100))))
             @ ''%** of the feedback. ''
             @ (if top_sentiment = ''Negative''
                  then ''This suggests users are facing critical issues in this specific area.''
                else if top_sentiment = ''Positive''
                  then ''This indicates high user satisfaction regarding this feature.''
                else ''Opinions on this product appear to be mixed.''))
    \<and> map_of topics_23_of_40 top_topic = Some c
    \<and> (\<exists>pre post. map fst topics_23_of_40 = pre @ top_topic # post
          \<and> (\<forall>k \<in> set pre. map_of topics_23_of_40 k < Some c)
          \<and> (\<forall>k \<in> set post. map_of topics_23_of_40 k \<le> Some c))
    \<and> (\<exists>pre post. map fst sentiments_40 = pre @ top_sentiment # post
          \<and> (\<forall>k \<in> set pre. map_of sentiments_40 k < map_of sentiments_40 top_sentiment)
          \<and> (\<forall>k \<in> set post. map_of sentiments_40 k \<le> map_of sentiments_40 top_sentiment)))"
proof -
  have h1: "topics_23_of_40 \<noteq> []"
    by (simp add: topics_23_of_40_def)
  have h2: "sentiments_40 \<noteq> []"
    by (simp add: sentiments_40_def)
  have h3: "(0::nat) < 40"
    by simp
  from h1 h2 h3 summary_template [OF h1 h2 h3] show ?thesis
    by (intro conjI)
qed

text \<open>
  The claim as stated fails at 23 reviews out of 40: the exact percentage is 57.5 and rounds
  to 58, the float product is just below 57.5 and the summary says 57.
\<close>

theorem summary_percentage_counterexample:
  "generate_smart_summary topics_23_of_40 sentiments_40 40 =
     Inr ''Based on an analysis of 40 reviews, the customer sentiment is predominantly **Positive**. The primary driver of conversation is **Service**, which appears in **57%** of the feedback. This indicates high user satisfaction regarding this feature.''
   \<and> spec_percentage 23 40 = 58"
  by code_simp

subsection \<open>A first analysis returns\<close>

text \<open>
  For an uncached ASIN with at least one review, a classifier that answers with one result
  per text, each with at least one label and one score, makes \<open>analyze_product\<close> return
  an analysis: the hypothesis of the cache theorems is met whenever the classifier keeps
  to the shape of its answer.
\<close>

lemma analysis_succeeds:
  assumes reviews: "product_reviews df asin = meta # others"
    and uncached: "map_of (cache s) asin = None"
    and answer: "clf (calls s) (map (\<lambda>r. clean_text (review_text r)) (target_reviews (meta # others)))
                   LABELS = Inr results"
    and enough: "length (target_reviews (meta # others)) \<le> length results"
    and shaped: "\<forall>res \<in> set results. labels res \<noteq> [] \<and> scores res \<noteq> []"
  shows "\<exists>r s1. analyze_product df clf asin s = (Inr r, s1)"
proof -
  have tne: "target_reviews (meta # others) \<noteq> []"
    using target_reviews_length [of "meta # others"] by auto
  have len: "length (map (\<lambda>r. clean_text (review_text r)) (target_reviews (meta # others)))
      = length (target_reviews (meta # others))"
    by simp
  from assemble_total [OF tne enough len shaped, of "meta # others" meta]
  obtain r where "assemble (meta # others) meta (target_reviews (meta # others))
           (map (\<lambda>r. clean_text (review_text r)) (target_reviews (meta # others))) results = Inr r"
    by auto
  then show ?thesis
    using uncached answer
    by (simp add: analyze_product_def cached_inference_miss inference_reviews [OF reviews])
qed

end
